theory Spec2Isabelle
  imports Main "HOL-Library.Word"
begin

unbundle bit_operations_syntax

chapter \<open>Squirel: keyboard decoder, console surface, parser and shell\<close>

section \<open>C characters\<close>

text \<open>
  A C \<open>char\<close> is a byte, modelled by HOL's \<^typ>\<open>char\<close>. On the x86-64 target \<open>char\<close>
  is signed: \<open>schar\<close> is the value a \<open>char\<close> has once promoted to \<open>int\<close>. A C string is
  the list of the bytes found from a pointer on; the terminator is the first NUL byte of
  the list, or the end of the list when there is none.
\<close>

definition NUL :: char where
  "NUL = CHR 0x00"

definition schar :: "char \<Rightarrow> int" where
  "schar c = (if (of_char c :: int) < 128 then of_char c else of_char c - 256)"

section \<open>Keyboard decoder (drivers/keyboard/keyboard.c)\<close>

definition KEY_NONE :: int where "KEY_NONE = 0"
definition KEY_BACKSPACE :: int where "KEY_BACKSPACE = 0x08"
definition KEY_ENTER :: int where "KEY_ENTER = 0x0A"
definition KEY_SPECIAL :: int where "KEY_SPECIAL = 0x100"

definition scancode_to_ascii_lower :: "char list" where
  "scancode_to_ascii_lower =
    [CHR 0x00, CHR 0x1B, CHR ''1'', CHR ''2'', CHR ''3'', CHR ''4'', CHR ''5'', CHR ''6''] @
    [CHR ''7'', CHR ''8'', CHR ''9'', CHR ''0'', CHR ''-'', CHR ''='', CHR 0x08, CHR 0x09] @
    [CHR ''q'', CHR ''w'', CHR ''e'', CHR ''r'', CHR ''t'', CHR ''y'', CHR ''u'', CHR ''i''] @
    [CHR ''o'', CHR ''p'', CHR ''['', CHR '']'', CHR 0x0A, CHR 0x00, CHR ''a'', CHR ''s''] @
    [CHR ''d'', CHR ''f'', CHR ''g'', CHR ''h'', CHR ''j'', CHR ''k'', CHR ''l'', CHR '';''] @
    [CHR 0x27, CHR 0x60, CHR 0x00, CHR 0x5C, CHR ''z'', CHR ''x'', CHR ''c'', CHR ''v''] @
    [CHR ''b'', CHR ''n'', CHR ''m'', CHR '','', CHR ''.'', CHR ''/'', CHR 0x00, CHR ''*''] @
    [CHR 0x00, CHR '' '', CHR 0x00, CHR 0x00, CHR 0x00, CHR 0x00, CHR 0x00, CHR 0x00] @
    [CHR 0x00, CHR 0x00, CHR 0x00, CHR 0x00, CHR 0x00, CHR 0x00, CHR 0x00, CHR ''7''] @
    [CHR ''8'', CHR ''9'', CHR ''-'', CHR ''4'', CHR ''5'', CHR ''6'', CHR ''+'', CHR ''1''] @
    [CHR ''2'', CHR ''3'', CHR ''0'', CHR ''.'', CHR 0x00, CHR 0x00, CHR 0x00, CHR 0x00] @
    [CHR 0x00, CHR 0x00, CHR 0x00, CHR 0x00, CHR 0x00, CHR 0x00, CHR 0x00, CHR 0x00] @
    [CHR 0x00, CHR 0x00, CHR 0x00, CHR 0x00, CHR 0x00, CHR 0x00, CHR 0x00, CHR 0x00] @
    [CHR 0x00, CHR 0x00, CHR 0x00, CHR 0x00, CHR 0x00, CHR 0x00, CHR 0x00, CHR 0x00] @
    [CHR 0x00, CHR 0x00, CHR 0x00, CHR 0x00, CHR 0x00, CHR 0x00, CHR 0x00, CHR 0x00] @
    [CHR 0x00, CHR 0x00, CHR 0x00, CHR 0x00, CHR 0x00, CHR 0x00, CHR 0x00, CHR 0x00]"

definition scancode_to_ascii_upper :: "char list" where
  "scancode_to_ascii_upper =
    [CHR 0x00, CHR 0x1B, CHR ''!'', CHR ''@'', CHR ''#'', CHR ''$'', CHR ''%'', CHR ''^''] @
    [CHR ''&'', CHR ''*'', CHR ''('', CHR '')'', CHR ''_'', CHR ''+'', CHR 0x08, CHR 0x09] @
    [CHR ''Q'', CHR ''W'', CHR ''E'', CHR ''R'', CHR ''T'', CHR ''Y'', CHR ''U'', CHR ''I''] @
    [CHR ''O'', CHR ''P'', CHR ''{'', CHR ''}'', CHR 0x0A, CHR 0x00, CHR ''A'', CHR ''S''] @
    [CHR ''D'', CHR ''F'', CHR ''G'', CHR ''H'', CHR ''J'', CHR ''K'', CHR ''L'', CHR '':''] @
    [CHR 0x22, CHR ''~'', CHR 0x00, CHR ''|'', CHR ''Z'', CHR ''X'', CHR ''C'', CHR ''V''] @
    [CHR ''B'', CHR ''N'', CHR ''M'', CHR ''<'', CHR ''>'', CHR ''?'', CHR 0x00, CHR ''*''] @
    [CHR 0x00, CHR '' '', CHR 0x00, CHR 0x00, CHR 0x00, CHR 0x00, CHR 0x00, CHR 0x00] @
    [CHR 0x00, CHR 0x00, CHR 0x00, CHR 0x00, CHR 0x00, CHR 0x00, CHR 0x00, CHR ''7''] @
    [CHR ''8'', CHR ''9'', CHR ''-'', CHR ''4'', CHR ''5'', CHR ''6'', CHR ''+'', CHR ''1''] @
    [CHR ''2'', CHR ''3'', CHR ''0'', CHR ''.'', CHR 0x00, CHR 0x00, CHR 0x00, CHR 0x00] @
    [CHR 0x00, CHR 0x00, CHR 0x00, CHR 0x00, CHR 0x00, CHR 0x00, CHR 0x00, CHR 0x00] @
    [CHR 0x00, CHR 0x00, CHR 0x00, CHR 0x00, CHR 0x00, CHR 0x00, CHR 0x00, CHR 0x00] @
    [CHR 0x00, CHR 0x00, CHR 0x00, CHR 0x00, CHR 0x00, CHR 0x00, CHR 0x00, CHR 0x00] @
    [CHR 0x00, CHR 0x00, CHR 0x00, CHR 0x00, CHR 0x00, CHR 0x00, CHR 0x00, CHR 0x00] @
    [CHR 0x00, CHR 0x00, CHR 0x00, CHR 0x00, CHR 0x00, CHR 0x00, CHR 0x00, CHR 0x00]"

text \<open>The three modifier flags, process-wide in the source.\<close>

record kbd_state =
  shift_pressed :: bool
  ctrl_pressed :: bool
  alt_pressed :: bool

text \<open>
  The keyboard controller as one poll sees it: the byte \<open>inb\<close> reads from the status
  port (0x64) and the byte it would read from the data port (0x60).
\<close>

type_synonym kbd_poll = "8 word \<times> 8 word"

definition keyboard_has_key :: "kbd_poll \<Rightarrow> bool" where
  "keyboard_has_key hw = (fst hw AND 0x01 \<noteq> 0)"

definition keyboard_read_scancode :: "kbd_poll \<Rightarrow> 8 word" where
  "keyboard_read_scancode hw = (if \<not> keyboard_has_key hw then 0 else snd hw)"

text \<open>The special key codes of \<open>keyboard.h\<close>: \<open>KEY_SPECIAL\<close> or-ed with the scancode.\<close>

definition KEY_F1 :: int where "KEY_F1 = KEY_SPECIAL OR 0x3B"
definition KEY_F2 :: int where "KEY_F2 = KEY_SPECIAL OR 0x3C"
definition KEY_F3 :: int where "KEY_F3 = KEY_SPECIAL OR 0x3D"
definition KEY_F4 :: int where "KEY_F4 = KEY_SPECIAL OR 0x3E"
definition KEY_F5 :: int where "KEY_F5 = KEY_SPECIAL OR 0x3F"
definition KEY_F6 :: int where "KEY_F6 = KEY_SPECIAL OR 0x40"
definition KEY_F7 :: int where "KEY_F7 = KEY_SPECIAL OR 0x41"
definition KEY_F8 :: int where "KEY_F8 = KEY_SPECIAL OR 0x42"
definition KEY_F9 :: int where "KEY_F9 = KEY_SPECIAL OR 0x43"
definition KEY_F10 :: int where "KEY_F10 = KEY_SPECIAL OR 0x44"
definition KEY_F11 :: int where "KEY_F11 = KEY_SPECIAL OR 0x57"
definition KEY_F12 :: int where "KEY_F12 = KEY_SPECIAL OR 0x58"
definition KEY_UP :: int where "KEY_UP = KEY_SPECIAL OR 0x48"
definition KEY_DOWN :: int where "KEY_DOWN = KEY_SPECIAL OR 0x50"
definition KEY_LEFT :: int where "KEY_LEFT = KEY_SPECIAL OR 0x4B"
definition KEY_RIGHT :: int where "KEY_RIGHT = KEY_SPECIAL OR 0x4D"
definition KEY_HOME :: int where "KEY_HOME = KEY_SPECIAL OR 0x47"
definition KEY_END :: int where "KEY_END = KEY_SPECIAL OR 0x4F"
definition KEY_PAGEUP :: int where "KEY_PAGEUP = KEY_SPECIAL OR 0x49"
definition KEY_PAGEDOWN :: int where "KEY_PAGEDOWN = KEY_SPECIAL OR 0x51"
definition KEY_INSERT :: int where "KEY_INSERT = KEY_SPECIAL OR 0x52"
definition KEY_DELETE :: int where "KEY_DELETE = KEY_SPECIAL OR 0x53"

lemmas special_key_defs =
  KEY_SPECIAL_def KEY_F1_def KEY_F2_def KEY_F3_def KEY_F4_def KEY_F5_def KEY_F6_def KEY_F7_def KEY_F8_def
  KEY_F9_def KEY_F10_def KEY_F11_def KEY_F12_def KEY_UP_def KEY_DOWN_def KEY_LEFT_def KEY_RIGHT_def
  KEY_HOME_def KEY_END_def KEY_PAGEUP_def KEY_PAGEDOWN_def KEY_INSERT_def KEY_DELETE_def

text \<open>The second \<open>switch\<close> of \<open>keyboard_getchar_nonblock\<close>: the named special keys.\<close>

definition special_key :: "8 word \<Rightarrow> int option" where
  "special_key scancode =
    (if scancode = 0x48 then Some KEY_UP
     else if scancode = 0x50 then Some KEY_DOWN
     else if scancode = 0x4B then Some KEY_LEFT
     else if scancode = 0x4D then Some KEY_RIGHT
     else if scancode = 0x47 then Some KEY_HOME
     else if scancode = 0x4F then Some KEY_END
     else if scancode = 0x49 then Some KEY_PAGEUP
     else if scancode = 0x51 then Some KEY_PAGEDOWN
     else if scancode = 0x52 then Some KEY_INSERT
     else if scancode = 0x53 then Some KEY_DELETE
     else if scancode = 0x3B then Some KEY_F1
     else if scancode = 0x3C then Some KEY_F2
     else if scancode = 0x3D then Some KEY_F3
     else if scancode = 0x3E then Some KEY_F4
     else if scancode = 0x3F then Some KEY_F5
     else if scancode = 0x40 then Some KEY_F6
     else if scancode = 0x41 then Some KEY_F7
     else if scancode = 0x42 then Some KEY_F8
     else if scancode = 0x43 then Some KEY_F9
     else if scancode = 0x44 then Some KEY_F10
     else if scancode = 0x57 then Some KEY_F11
     else if scancode = 0x58 then Some KEY_F12
     else None)"

definition keyboard_getchar_nonblock :: "kbd_state \<Rightarrow> kbd_poll \<Rightarrow> int \<times> kbd_state" where
  "keyboard_getchar_nonblock k hw =
    (let raw = keyboard_read_scancode hw in
     if raw = 0 then (KEY_NONE, k)
     else
       let released = (raw AND 0x80 \<noteq> 0);
           scancode = raw AND 0x7F
       in
         if scancode = 0x2A \<or> scancode = 0x36 then (KEY_NONE, k\<lparr>shift_pressed := \<not> released\<rparr>)
         else if scancode = 0x1D then (KEY_NONE, k\<lparr>ctrl_pressed := \<not> released\<rparr>)
         else if scancode = 0x38 then (KEY_NONE, k\<lparr>alt_pressed := \<not> released\<rparr>)
         else if released then (KEY_NONE, k)
         else
           (case special_key scancode of
              Some key \<Rightarrow> (key, k)
            | None \<Rightarrow>
                let table = (if shift_pressed k then scancode_to_ascii_upper
                             else scancode_to_ascii_lower);
                    c = table ! unat scancode
                in
                  if c = NUL then (KEY_NONE, k)
                  else if ctrl_pressed k \<and> schar (CHR ''a'') \<le> schar c \<and> schar c \<le> schar (CHR ''z'')
                  then (schar c - schar (CHR ''a'') + 1, k)
                  else (schar c, k)))"

subsection \<open>Properties of the decoder\<close>

text \<open>The test \<open>c >= 'a' && c <= 'z'\<close> of the source, on the promoted character.\<close>

definition is_lower_letter :: "char \<Rightarrow> bool" where
  "is_lower_letter c = (schar (CHR ''a'') \<le> schar c \<and> schar c \<le> schar (CHR ''z''))"

text \<open>The scancodes of the 26 letter keys.\<close>

definition letter_codes :: "nat list" where
  "letter_codes = [16, 17, 18, 19, 20, 21, 22, 23, 24, 25, 30, 31, 32, 33, 34, 35, 36, 37, 38,
                   44, 45, 46, 47, 48, 49, 50]"

text \<open>The four base codes of the first \<open>switch\<close>: both shifts, ctrl and alt.\<close>

definition is_modifier_code :: "8 word \<Rightarrow> bool" where
  "is_modifier_code base = (base = 0x2A \<or> base = 0x36 \<or> base = 0x1D \<or> base = 0x38)"

lemma and_7F_make: "(sc::8 word) AND 0x80 = 0 \<Longrightarrow> sc AND 0x7F = sc"
proof -
  assume h: "sc AND 0x80 = 0"
  have m: "(0x7F OR 0x80 :: 8 word) = - 1" by simp
  have "sc = sc AND (0x7F OR 0x80)" unfolding m by simp
  also have "\<dots> = (sc AND 0x7F) OR (sc AND 0x80)" by (simp only: bit.conj_disj_distrib)
  finally show ?thesis using h by simp
qed

lemma unat_make_less: "(sc::8 word) AND 0x80 = 0 \<Longrightarrow> unat sc < 128"
proof -
  assume "sc AND 0x80 = 0"
  then have e: "sc = sc AND 0x7F" by (simp add: and_7F_make)
  have "sc AND 0x7F \<le> 0x7F" by (rule word_and_le1)
  then have "unat (sc AND 0x7F) < 128" by (simp add: word_le_nat_alt)
  with e show ?thesis by simp
qed

lemma lower_table_letters:
  "list_all (\<lambda>n. is_lower_letter (scancode_to_ascii_lower ! n) \<longrightarrow> n \<in> set letter_codes) [0..<128]"
  by code_simp

lemma upper_of_lower:
  "list_all (\<lambda>n. schar (scancode_to_ascii_upper ! n) = schar (scancode_to_ascii_lower ! n) - 32
        \<and> scancode_to_ascii_upper ! n \<noteq> NUL \<and> \<not> is_lower_letter (scancode_to_ascii_upper ! n)
        \<and> scancode_to_ascii_lower ! n \<noteq> NUL \<and> special_key (of_nat n) = None \<and> n \<noteq> 0
        \<and> n \<noteq> 0x2A \<and> n \<noteq> 0x36 \<and> n \<noteq> 0x1D \<and> n \<noteq> 0x38) letter_codes"
  by code_simp


lemma letter_key_facts:
  assumes mk: "(sc::8 word) AND 0x80 = 0" and l: "is_lower_letter (scancode_to_ascii_lower ! unat sc)"
  shows "unat sc \<in> set letter_codes"
proof -
  have "unat sc \<in> set [0..<128]" using unat_make_less [OF mk] by simp
  with lower_table_letters l show ?thesis unfolding list_all_iff by blast
qed

lemma letter_code_props:
  assumes "unat (sc::8 word) \<in> set letter_codes"
  shows "schar (scancode_to_ascii_upper ! unat sc) = schar (scancode_to_ascii_lower ! unat sc) - 32"
    and "scancode_to_ascii_upper ! unat sc \<noteq> NUL"
    and "\<not> is_lower_letter (scancode_to_ascii_upper ! unat sc)"
    and "scancode_to_ascii_lower ! unat sc \<noteq> NUL"
    and "special_key sc = None"
    and "sc \<noteq> 0" and "sc \<noteq> 0x2A" and "sc \<noteq> 0x36" and "sc \<noteq> 0x1D" and "sc \<noteq> 0x38"
proof -
  from upper_of_lower assms have a: "schar (scancode_to_ascii_upper ! unat sc) = schar (scancode_to_ascii_lower ! unat sc) - 32
        \<and> scancode_to_ascii_upper ! unat sc \<noteq> NUL \<and> \<not> is_lower_letter (scancode_to_ascii_upper ! unat sc)
        \<and> scancode_to_ascii_lower ! unat sc \<noteq> NUL \<and> special_key (of_nat (unat sc)) = None \<and> unat sc \<noteq> 0
        \<and> unat sc \<noteq> 0x2A \<and> unat sc \<noteq> 0x36 \<and> unat sc \<noteq> 0x1D \<and> unat sc \<noteq> 0x38"
    unfolding list_all_iff by blast
  from a show "schar (scancode_to_ascii_upper ! unat sc) = schar (scancode_to_ascii_lower ! unat sc) - 32"
    and "scancode_to_ascii_upper ! unat sc \<noteq> NUL"
    and "\<not> is_lower_letter (scancode_to_ascii_upper ! unat sc)"
    and "scancode_to_ascii_lower ! unat sc \<noteq> NUL"
    by simp_all
  from a show "special_key sc = None" by simp
  from a show "sc \<noteq> 0" and "sc \<noteq> 0x2A" and "sc \<noteq> 0x36" and "sc \<noteq> 0x1D" and "sc \<noteq> 0x38"
    by auto
qed

lemma decode_letter_key:
  assumes hk: "keyboard_has_key hw" and mk: "snd hw AND 0x80 = 0"
    and l: "is_lower_letter (scancode_to_ascii_lower ! unat (snd hw))"
  shows "keyboard_getchar_nonblock k hw =
    (if shift_pressed k then (schar (scancode_to_ascii_upper ! unat (snd hw)), k)
     else if ctrl_pressed k then (schar (scancode_to_ascii_lower ! unat (snd hw)) - schar (CHR ''a'') + 1, k)
     else (schar (scancode_to_ascii_lower ! unat (snd hw)), k))"
proof -
  note p = letter_code_props [OF letter_key_facts [OF mk l]]
  have u: "\<not> (schar (CHR ''a'') \<le> schar (scancode_to_ascii_upper ! unat (snd hw)) \<and>
     schar (scancode_to_ascii_upper ! unat (snd hw)) \<le> schar (CHR ''z''))"
    using p(3) by (simp add: is_lower_letter_def)
  have l': "schar (CHR ''a'') \<le> schar (scancode_to_ascii_lower ! unat (snd hw))"
      "schar (scancode_to_ascii_lower ! unat (snd hw)) \<le> schar (CHR ''z'')"
    using l by (simp_all add: is_lower_letter_def)
  show ?thesis
    unfolding keyboard_getchar_nonblock_def keyboard_read_scancode_def Let_def
    using hk p(2,4-10) u l' by (auto simp add: and_7F_make [OF mk] mk)
qed

text \<open>
  Claim C3. In a state where ctrl is active and shift inactive, a pending make code whose
  entry in the unshifted table is a lowercase letter \<open>c\<close> decodes to the control code
  \<open>c - 'a' + 1\<close> (the modifier state is unchanged); in particular, with ctrl held,
  scancode 0x1E (the key \<open>a\<close>) decodes to 1 and scancode 0x30 (the key \<open>b\<close>) to 2.
\<close>

theorem ctrl_folds_lowercase_letter:
  "keyboard_has_key hw \<Longrightarrow> snd hw AND 0x80 = 0 \<Longrightarrow>
   ctrl_pressed k \<Longrightarrow> \<not> shift_pressed k \<Longrightarrow>
   is_lower_letter (scancode_to_ascii_lower ! unat (snd hw)) \<Longrightarrow>
     keyboard_getchar_nonblock k hw =
       (schar (scancode_to_ascii_lower ! unat (snd hw)) - schar (CHR ''a'') + 1, k) \<and>
     fst (keyboard_getchar_nonblock k (0x01, 0x1E)) = 1 \<and>
     fst (keyboard_getchar_nonblock k (0x01, 0x30)) = 2"
proof -
  assume hk: "keyboard_has_key hw" and mk: "snd hw AND 0x80 = 0"
    and c: "ctrl_pressed k" and s: "\<not> shift_pressed k"
    and l: "is_lower_letter (scancode_to_ascii_lower ! unat (snd hw))"
  have g: "keyboard_getchar_nonblock k hw =
       (schar (scancode_to_ascii_lower ! unat (snd hw)) - schar (CHR ''a'') + 1, k)"
    using decode_letter_key [OF hk mk l, of k] c s by simp
  have a: "fst (keyboard_getchar_nonblock k (0x01, 0x1E)) = 1"
    using c s by (simp add: keyboard_getchar_nonblock_def keyboard_read_scancode_def
        keyboard_has_key_def special_key_def scancode_to_ascii_lower_def schar_def NUL_def)
  have b: "fst (keyboard_getchar_nonblock k (0x01, 0x30)) = 2"
    using c s by (simp add: keyboard_getchar_nonblock_def keyboard_read_scancode_def
        keyboard_has_key_def special_key_def scancode_to_ascii_lower_def schar_def NUL_def)
  from g a b show ?thesis by simp
qed

theorem ctrl_folds_lowercase_letter_witness:
  "keyboard_has_key (0x01, 0x1F) \<and> snd (0x01 :: 8 word, 0x1F :: 8 word) AND 0x80 = 0 \<and>
   ctrl_pressed \<lparr>shift_pressed = False, ctrl_pressed = True, alt_pressed = False\<rparr> \<and>
   \<not> shift_pressed \<lparr>shift_pressed = False, ctrl_pressed = True, alt_pressed = False\<rparr> \<and>
   is_lower_letter (scancode_to_ascii_lower ! unat (snd (0x01 :: 8 word, 0x1F :: 8 word))) \<and>
   keyboard_getchar_nonblock \<lparr>shift_pressed = False, ctrl_pressed = True, alt_pressed = False\<rparr>
       (0x01, 0x1F) =
     (19, \<lparr>shift_pressed = False, ctrl_pressed = True, alt_pressed = False\<rparr>)"
  using ctrl_folds_lowercase_letter [of "(0x01, 0x1F)"
      "\<lparr>shift_pressed = False, ctrl_pressed = True, alt_pressed = False\<rparr>"]
  by (simp add: keyboard_has_key_def is_lower_letter_def scancode_to_ascii_lower_def schar_def)


text \<open>
  Claim C9. With both ctrl and shift active, a letter key decodes to the entry of the
  shifted table, which is the uppercase letter (the lowercase code minus 32): the fold to
  a control code only applies to a lowercase table value. Ctrl+shift with scancode 0x1E
  yields 65 (\<open>A\<close>), not 1.
\<close>

theorem ctrl_shift_letter_stays_uppercase:
  "keyboard_has_key hw \<Longrightarrow> snd hw AND 0x80 = 0 \<Longrightarrow>
   ctrl_pressed k \<Longrightarrow> shift_pressed k \<Longrightarrow>
   is_lower_letter (scancode_to_ascii_lower ! unat (snd hw)) \<Longrightarrow>
     keyboard_getchar_nonblock k hw = (schar (scancode_to_ascii_upper ! unat (snd hw)), k) \<and>
     schar (scancode_to_ascii_upper ! unat (snd hw)) =
       schar (scancode_to_ascii_lower ! unat (snd hw)) - 32 \<and>
     fst (keyboard_getchar_nonblock k (0x01, 0x1E)) = 65"
proof -
  assume hk: "keyboard_has_key hw" and mk: "snd hw AND 0x80 = 0"
    and c: "ctrl_pressed k" and s: "shift_pressed k"
    and l: "is_lower_letter (scancode_to_ascii_lower ! unat (snd hw))"
  have g: "keyboard_getchar_nonblock k hw = (schar (scancode_to_ascii_upper ! unat (snd hw)), k)"
    using decode_letter_key [OF hk mk l, of k] s by simp
  have u: "schar (scancode_to_ascii_upper ! unat (snd hw)) =
       schar (scancode_to_ascii_lower ! unat (snd hw)) - 32"
    by (rule letter_code_props(1) [OF letter_key_facts [OF mk l]])
  have a: "fst (keyboard_getchar_nonblock k (0x01, 0x1E)) = 65"
    using c s by (simp add: keyboard_getchar_nonblock_def keyboard_read_scancode_def
        keyboard_has_key_def special_key_def scancode_to_ascii_upper_def schar_def NUL_def)
  from g u a show ?thesis by simp
qed

theorem ctrl_shift_letter_stays_uppercase_witness:
  "keyboard_has_key (0x01, 0x30) \<and> snd (0x01 :: 8 word, 0x30 :: 8 word) AND 0x80 = 0 \<and>
   ctrl_pressed \<lparr>shift_pressed = True, ctrl_pressed = True, alt_pressed = False\<rparr> \<and>
   shift_pressed \<lparr>shift_pressed = True, ctrl_pressed = True, alt_pressed = False\<rparr> \<and>
   is_lower_letter (scancode_to_ascii_lower ! unat (snd (0x01 :: 8 word, 0x30 :: 8 word))) \<and>
   keyboard_getchar_nonblock \<lparr>shift_pressed = True, ctrl_pressed = True, alt_pressed = False\<rparr>
       (0x01, 0x30) =
     (66, \<lparr>shift_pressed = True, ctrl_pressed = True, alt_pressed = False\<rparr>)"
  using ctrl_shift_letter_stays_uppercase [of "(0x01, 0x30)"
      "\<lparr>shift_pressed = True, ctrl_pressed = True, alt_pressed = False\<rparr>"]
  by (simp add: keyboard_has_key_def is_lower_letter_def scancode_to_ascii_lower_def
      scancode_to_ascii_upper_def schar_def)

lemma modifier_raw_nonzero: "is_modifier_code (raw AND 0x7F) \<Longrightarrow> raw \<noteq> 0"
  by (auto simp: is_modifier_code_def)

text \<open>
  Claim C8. When a byte is pending and its base code (release bit masked off) is 0x2A or
  0x36, 0x1D, or 0x38, exactly the shift, ctrl or alt flag is set to "make" (true when the
  release bit is clear, false when it is set), the other two flags keep their values, and
  the call returns \<open>KEY_NONE\<close>. For every poll whose scancode has a base code that is not
  a modifier code (no byte pending included), the three flags are unchanged.
\<close>

theorem modifier_codes_update_only_their_flag:
  "(keyboard_has_key hw \<longrightarrow>
      (snd hw AND 0x7F = 0x2A \<or> snd hw AND 0x7F = 0x36 \<longrightarrow>
         keyboard_getchar_nonblock k hw =
           (KEY_NONE, k\<lparr>shift_pressed := (snd hw AND 0x80 = 0)\<rparr>)) \<and>
      (snd hw AND 0x7F = 0x1D \<longrightarrow>
         keyboard_getchar_nonblock k hw =
           (KEY_NONE, k\<lparr>ctrl_pressed := (snd hw AND 0x80 = 0)\<rparr>)) \<and>
      (snd hw AND 0x7F = 0x38 \<longrightarrow>
         keyboard_getchar_nonblock k hw =
           (KEY_NONE, k\<lparr>alt_pressed := (snd hw AND 0x80 = 0)\<rparr>))) \<and>
   (\<not> is_modifier_code (keyboard_read_scancode hw AND 0x7F) \<longrightarrow>
      snd (keyboard_getchar_nonblock k hw) = k)"
proof -
  have nz: "\<And>v. snd hw AND 0x7F = v \<Longrightarrow> v \<noteq> 0 \<Longrightarrow> snd hw \<noteq> 0"
    by auto
  have m: "keyboard_has_key hw \<longrightarrow>
      (snd hw AND 0x7F = 0x2A \<or> snd hw AND 0x7F = 0x36 \<longrightarrow>
         keyboard_getchar_nonblock k hw =
           (KEY_NONE, k\<lparr>shift_pressed := (snd hw AND 0x80 = 0)\<rparr>)) \<and>
      (snd hw AND 0x7F = 0x1D \<longrightarrow>
         keyboard_getchar_nonblock k hw =
           (KEY_NONE, k\<lparr>ctrl_pressed := (snd hw AND 0x80 = 0)\<rparr>)) \<and>
      (snd hw AND 0x7F = 0x38 \<longrightarrow>
         keyboard_getchar_nonblock k hw =
           (KEY_NONE, k\<lparr>alt_pressed := (snd hw AND 0x80 = 0)\<rparr>))"
    using nz by (auto simp: keyboard_getchar_nonblock_def keyboard_read_scancode_def Let_def)
  have f: "\<not> is_modifier_code (keyboard_read_scancode hw AND 0x7F) \<longrightarrow>
      snd (keyboard_getchar_nonblock k hw) = k"
    by (auto simp: keyboard_getchar_nonblock_def is_modifier_code_def Let_def
        split: option.splits)
  from m f show ?thesis by blast
qed

theorem modifier_codes_update_only_their_flag_witness:
  "keyboard_has_key (0x01, 0xAA) \<and> snd (0x01 :: 8 word, 0xAA :: 8 word) AND 0x7F = 0x2A \<and>
   keyboard_getchar_nonblock \<lparr>shift_pressed = True, ctrl_pressed = True, alt_pressed = False\<rparr>
       (0x01, 0xAA) =
     (KEY_NONE, \<lparr>shift_pressed = False, ctrl_pressed = True, alt_pressed = False\<rparr>) \<and>
   keyboard_has_key (0x01, 0x1D) \<and> snd (0x01 :: 8 word, 0x1D :: 8 word) AND 0x7F = 0x1D \<and>
   keyboard_getchar_nonblock \<lparr>shift_pressed = False, ctrl_pressed = False, alt_pressed = False\<rparr>
       (0x01, 0x1D) =
     (KEY_NONE, \<lparr>shift_pressed = False, ctrl_pressed = True, alt_pressed = False\<rparr>) \<and>
   \<not> is_modifier_code (keyboard_read_scancode (0x01, 0x1E) AND 0x7F) \<and>
   snd (keyboard_getchar_nonblock
          \<lparr>shift_pressed = True, ctrl_pressed = False, alt_pressed = True\<rparr> (0x01, 0x1E)) =
     \<lparr>shift_pressed = True, ctrl_pressed = False, alt_pressed = True\<rparr>"
  using modifier_codes_update_only_their_flag [of "(0x01, 0xAA)"
      "\<lparr>shift_pressed = True, ctrl_pressed = True, alt_pressed = False\<rparr>"]
    modifier_codes_update_only_their_flag [of "(0x01, 0x1D)"
      "\<lparr>shift_pressed = False, ctrl_pressed = False, alt_pressed = False\<rparr>"]
    modifier_codes_update_only_their_flag [of "(0x01, 0x1E)"
      "\<lparr>shift_pressed = True, ctrl_pressed = False, alt_pressed = True\<rparr>"]
  by (simp add: keyboard_has_key_def keyboard_read_scancode_def is_modifier_code_def)


section \<open>Console surface (drivers/vga/vga_text.c)\<close>

definition VGA_WIDTH :: int where "VGA_WIDTH = 80"
definition VGA_HEIGHT :: int where "VGA_HEIGHT = 25"

text \<open>
  The driver's private state: the memory-mapped buffer of \<open>uint16_t\<close> cells (80 * 25 of
  them at 0xB8000), the software cursor (two C \<open>int\<close>s) and the attribute byte. The bytes
  written with \<open>outb\<close> are recorded in \<open>port_log\<close>, in order, as (port, value) pairs.
  \<open>scroll_count\<close> is not a variable of the source: it counts the calls of \<open>vga_scroll\<close>,
  so that "one scroll" can be stated. The cursor is a mathematical integer here; it
  stays between 0 and 80 in every reachable state (lemma \<open>cursor_ok_run\<close> below), far
  from the limits of a C \<open>int\<close>.
\<close>

record vga_state =
  vga_buffer :: "16 word list"
  cursor_x :: int
  cursor_y :: int
  current_attr :: "8 word"
  port_log :: "(16 word \<times> 8 word) list"
  scroll_count :: nat

definition outb :: "16 word \<Rightarrow> 8 word \<Rightarrow> vga_state \<Rightarrow> vga_state" where
  "outb port val s = s\<lparr>port_log := port_log s @ [(port, val)]\<rparr>"

text \<open>\<open>vga_color_t\<close> is an enum without negative values: an unsigned 32-bit integer.\<close>

definition VGA_BLACK :: "32 word" where "VGA_BLACK = 0"
definition VGA_LIGHT_GRAY :: "32 word" where "VGA_LIGHT_GRAY = 7"

definition vga_make_attr :: "32 word \<Rightarrow> 32 word \<Rightarrow> 8 word" where
  "vga_make_attr fg bg = ucast (push_bit 4 bg OR (fg AND 0x0F))"

text \<open>\<open>(uint16_t)c\<close> converts the signed \<open>char\<close>: the value of \<open>schar c\<close> modulo 65536.\<close>

definition vga_make_entry :: "char \<Rightarrow> 8 word \<Rightarrow> 16 word" where
  "vga_make_entry c attr = word_of_int (schar c) OR push_bit 8 (ucast attr)"

definition vga_update_cursor :: "vga_state \<Rightarrow> vga_state" where
  "vga_update_cursor s =
    (let pos = (word_of_int (cursor_y s * VGA_WIDTH + cursor_x s) :: 16 word) in
     outb 0x3D5 (ucast (drop_bit 8 pos AND 0xFF))
       (outb 0x3D4 0x0E
         (outb 0x3D5 (ucast (pos AND 0xFF))
           (outb 0x3D4 0x0F s))))"

text \<open>
  A store \<open>vga_buffer[i] = v\<close>. An index outside the 2000 cells would write outside the
  buffer; the model leaves the buffer as it is there. No store of a reachable state is out
  of range (lemma \<open>reachable_store_in_range\<close>).
\<close>

definition vga_store :: "16 word list \<Rightarrow> int \<Rightarrow> 16 word \<Rightarrow> 16 word list" where
  "vga_store buf i v = (if 0 \<le> i \<and> i < int (length buf) then buf[nat i := v] else buf)"

text \<open>The loop \<open>for (i = lo; i < hi; i++) vga_buffer[i] = blank\<close> of \<open>vga_clear\<close> and \<open>vga_scroll\<close>.\<close>

function vga_fill :: "16 word list \<Rightarrow> int \<Rightarrow> int \<Rightarrow> 16 word \<Rightarrow> 16 word list" where
  "vga_fill buf i hi blank =
    (if i < hi then vga_fill (vga_store buf i blank) (i + 1) hi blank else buf)"
  by pat_completeness auto
termination
  by (relation "measure (\<lambda>(buf, i, hi, blank). nat (hi - i))") auto

declare vga_fill.simps [simp del]

text \<open>The loop \<open>for (i = 0; i < (VGA_HEIGHT - 1) * VGA_WIDTH; i++) vga_buffer[i] = vga_buffer[i + VGA_WIDTH]\<close>.\<close>

function vga_move_up :: "16 word list \<Rightarrow> int \<Rightarrow> 16 word list" where
  "vga_move_up buf i =
    (if i < (VGA_HEIGHT - 1) * VGA_WIDTH
     then vga_move_up (vga_store buf i (buf ! nat (i + VGA_WIDTH))) (i + 1)
     else buf)"
  by pat_completeness auto
termination
  by (relation "measure (\<lambda>(buf, i). nat ((VGA_HEIGHT - 1) * VGA_WIDTH - i))") auto

declare vga_move_up.simps [simp del]

definition vga_clear :: "vga_state \<Rightarrow> vga_state" where
  "vga_clear s =
    (let blank = vga_make_entry (CHR '' '') (current_attr s) in
     vga_update_cursor
       (s\<lparr>vga_buffer := vga_fill (vga_buffer s) 0 (VGA_WIDTH * VGA_HEIGHT) blank,
          cursor_x := 0, cursor_y := 0\<rparr>))"

definition vga_set_color :: "32 word \<Rightarrow> 32 word \<Rightarrow> vga_state \<Rightarrow> vga_state" where
  "vga_set_color fg bg s = s\<lparr>current_attr := vga_make_attr fg bg\<rparr>"

definition vga_scroll :: "vga_state \<Rightarrow> vga_state" where
  "vga_scroll s =
    (let blank = vga_make_entry (CHR '' '') (current_attr s);
         moved = vga_move_up (vga_buffer s) 0
     in s\<lparr>vga_buffer := vga_fill moved ((VGA_HEIGHT - 1) * VGA_WIDTH) (VGA_HEIGHT * VGA_WIDTH) blank,
          scroll_count := Suc (scroll_count s)\<rparr>)"

text \<open>The \<open>switch\<close> of \<open>vga_putchar\<close>. The comparison \<open>c >= ' '\<close> is on the signed \<open>char\<close>.\<close>

definition vga_putchar_switch :: "vga_state \<Rightarrow> char \<Rightarrow> vga_state" where
  "vga_putchar_switch s c =
    (if c = CHR 0x0A then s\<lparr>cursor_x := 0, cursor_y := cursor_y s + 1\<rparr>
     else if c = CHR 0x0D then s\<lparr>cursor_x := 0\<rparr>
     else if c = CHR 0x09 then
       (let x = (cursor_x s + 8) AND NOT 7 in
        if x \<ge> VGA_WIDTH then s\<lparr>cursor_x := 0, cursor_y := cursor_y s + 1\<rparr>
        else s\<lparr>cursor_x := x\<rparr>)
     else if c = CHR 0x08 then
       (if cursor_x s > 0 then s\<lparr>cursor_x := cursor_x s - 1\<rparr>
        else if cursor_y s > 0 then s\<lparr>cursor_x := VGA_WIDTH - 1, cursor_y := cursor_y s - 1\<rparr>
        else s)
     else if schar c \<ge> schar (CHR '' '') then
       (let offset = cursor_y s * VGA_WIDTH + cursor_x s;
            s1 = s\<lparr>vga_buffer := vga_store (vga_buffer s) offset (vga_make_entry c (current_attr s)),
                   cursor_x := cursor_x s + 1\<rparr>
        in if cursor_x s1 \<ge> VGA_WIDTH then s1\<lparr>cursor_x := 0, cursor_y := cursor_y s1 + 1\<rparr>
           else s1)
     else s)"

definition vga_putchar :: "vga_state \<Rightarrow> char \<Rightarrow> vga_state" where
  "vga_putchar s c =
    (let s1 = vga_putchar_switch s c;
         s2 = (if cursor_y s1 \<ge> VGA_HEIGHT then (vga_scroll s1)\<lparr>cursor_y := VGA_HEIGHT - 1\<rparr> else s1)
     in vga_update_cursor s2)"

text \<open>\<open>while ( *str) vga_putchar( *str++)\<close>: the characters up to the terminator.\<close>

fun vga_print :: "vga_state \<Rightarrow> string \<Rightarrow> vga_state" where
  "vga_print s [] = s"
| "vga_print s (c # str) = (if c = NUL then s else vga_print (vga_putchar s c) str)"

definition vga_println :: "vga_state \<Rightarrow> string \<Rightarrow> vga_state" where
  "vga_println s str = vga_putchar (vga_print s str) (CHR 0x0A)"

definition vga_set_cursor :: "int \<Rightarrow> int \<Rightarrow> vga_state \<Rightarrow> vga_state" where
  "vga_set_cursor x y s =
    (if x \<ge> 0 \<and> x < VGA_WIDTH \<and> y \<ge> 0 \<and> y < VGA_HEIGHT
     then vga_update_cursor (s\<lparr>cursor_x := x, cursor_y := y\<rparr>)
     else s)"

definition vga_cursor_enable :: "bool \<Rightarrow> vga_state \<Rightarrow> vga_state" where
  "vga_cursor_enable enable s =
    (if enable then outb 0x3D5 0x0F (outb 0x3D4 0x0B (outb 0x3D5 0x0E (outb 0x3D4 0x0A s)))
     else outb 0x3D5 0x20 (outb 0x3D4 0x0A s))"

definition vga_init :: "vga_state \<Rightarrow> vga_state" where
  "vga_init s =
    vga_cursor_enable True (vga_clear (s\<lparr>current_attr := vga_make_attr VGA_LIGHT_GRAY VGA_BLACK\<rparr>))"

text \<open>The public operations of the console, and a finite sequence of them.\<close>

datatype console_op =
    Op_clear
  | Op_set_color "32 word" "32 word"
  | Op_put_char char
  | Op_print string
  | Op_println string
  | Op_set_cursor int int
  | Op_scroll
  | Op_cursor_visibility bool

fun console_step :: "vga_state \<Rightarrow> console_op \<Rightarrow> vga_state" where
  "console_step s Op_clear = vga_clear s"
| "console_step s (Op_set_color fg bg) = vga_set_color fg bg s"
| "console_step s (Op_put_char c) = vga_putchar s c"
| "console_step s (Op_print str) = vga_print s str"
| "console_step s (Op_println str) = vga_println s str"
| "console_step s (Op_set_cursor x y) = vga_set_cursor x y s"
| "console_step s Op_scroll = vga_scroll s"
| "console_step s (Op_cursor_visibility b) = vga_cursor_enable b s"

definition console_run :: "vga_state \<Rightarrow> console_op list \<Rightarrow> vga_state" where
  "console_run s ops = foldl console_step s ops"

subsection \<open>Properties of the console\<close>

text \<open>The invariant of the console: the cursor is inside the 80 by 25 grid.\<close>

definition cursor_ok :: "vga_state \<Rightarrow> bool" where
  "cursor_ok s = (0 \<le> cursor_x s \<and> cursor_x s < VGA_WIDTH \<and> 0 \<le> cursor_y s \<and> cursor_y s < VGA_HEIGHT)"

text \<open>The blank cell of \<open>vga_clear\<close> and \<open>vga_scroll\<close>: a space in the current attribute.\<close>

definition vga_blank :: "vga_state \<Rightarrow> 16 word" where
  "vga_blank s = vga_make_entry (CHR '' '') (current_attr s)"

text \<open>The characters the default branch of \<open>vga_putchar\<close> writes: \<open>c >= ' '\<close> as a signed \<open>char\<close>.\<close>

definition vga_printable :: "char \<Rightarrow> bool" where
  "vga_printable c = (schar (CHR '' '') \<le> schar c)"

text \<open>Row \<open>r\<close> of a grid: its 80 cells.\<close>

definition vga_row :: "16 word list \<Rightarrow> nat \<Rightarrow> 16 word list" where
  "vga_row buf r = take 80 (drop (r * 80) buf)"

text \<open>The console before \<open>vga_init\<close>: the static initialisers of the source, over a zeroed display memory.\<close>

definition vga_power_on :: vga_state where
  "vga_power_on = \<lparr>vga_buffer = replicate 2000 0, cursor_x = 0, cursor_y = 0,
                    current_attr = 0x07, port_log = [], scroll_count = 0\<rparr>"

text \<open>The initialised console with the cursor moved to the start of the last row.\<close>

definition last_row_state :: vga_state where
  "last_row_state = vga_set_cursor 0 24 (vga_init vga_power_on)"

lemma update_cursor_fields [simp]:
  "cursor_x (vga_update_cursor s) = cursor_x s"
  "cursor_y (vga_update_cursor s) = cursor_y s"
  "vga_buffer (vga_update_cursor s) = vga_buffer s"
  "current_attr (vga_update_cursor s) = current_attr s"
  "scroll_count (vga_update_cursor s) = scroll_count s"
  by (simp_all add: vga_update_cursor_def outb_def Let_def)

lemma scroll_fields [simp]:
  "cursor_x (vga_scroll s) = cursor_x s"
  "cursor_y (vga_scroll s) = cursor_y s"
  "current_attr (vga_scroll s) = current_attr s"
  "port_log (vga_scroll s) = port_log s"
  "scroll_count (vga_scroll s) = Suc (scroll_count s)"
  by (simp_all add: vga_scroll_def Let_def)

lemma cursor_enable_fields [simp]:
  "cursor_x (vga_cursor_enable b s) = cursor_x s"
  "cursor_y (vga_cursor_enable b s) = cursor_y s"
  "vga_buffer (vga_cursor_enable b s) = vga_buffer s"
  "current_attr (vga_cursor_enable b s) = current_attr s"
  "scroll_count (vga_cursor_enable b s) = scroll_count s"
  by (simp_all add: vga_cursor_enable_def outb_def)

lemma tab_stop_bounds:
  assumes "0 \<le> (x::int)"
  shows "0 \<le> (x + 8) AND NOT 7"
  using assms by simp

lemma cursor_ok_update [simp]: "cursor_ok (vga_update_cursor s) = cursor_ok s"
  by (simp add: cursor_ok_def)

lemma cursor_ok_clear: "cursor_ok (vga_clear s)"
  by (simp add: vga_clear_def cursor_ok_def Let_def VGA_WIDTH_def VGA_HEIGHT_def)

lemma switch_cursor_bounds:
  assumes "cursor_ok s"
  shows "0 \<le> cursor_x (vga_putchar_switch s c) \<and> cursor_x (vga_putchar_switch s c) < VGA_WIDTH \<and>
         0 \<le> cursor_y (vga_putchar_switch s c) \<and> cursor_y (vga_putchar_switch s c) \<le> VGA_HEIGHT"
  using assms
  by (auto simp: cursor_ok_def vga_putchar_switch_def Let_def VGA_WIDTH_def VGA_HEIGHT_def)

lemma cursor_ok_putchar: "cursor_ok s \<Longrightarrow> cursor_ok (vga_putchar s c)"
  using switch_cursor_bounds [of s c]
  by (auto simp: vga_putchar_def Let_def cursor_ok_def VGA_HEIGHT_def VGA_WIDTH_def)

lemma cursor_ok_print: "cursor_ok s \<Longrightarrow> cursor_ok (vga_print s str)"
  by (induction str arbitrary: s) (auto simp: cursor_ok_putchar)

lemma cursor_ok_set_color: "cursor_ok (vga_set_color fg bg s) = cursor_ok s"
  by (simp add: vga_set_color_def cursor_ok_def)

lemma cursor_ok_scroll: "cursor_ok (vga_scroll s) = cursor_ok s"
  by (simp add: cursor_ok_def)

lemma cursor_ok_cursor_enable: "cursor_ok (vga_cursor_enable b s) = cursor_ok s"
  by (simp add: cursor_ok_def)

lemma cursor_ok_set_cursor: "cursor_ok s \<Longrightarrow> cursor_ok (vga_set_cursor x y s)"
  by (simp add: vga_set_cursor_def cursor_ok_def)

lemma cursor_ok_init: "cursor_ok (vga_init s)"
  by (simp add: vga_init_def cursor_ok_cursor_enable cursor_ok_clear)

lemma cursor_ok_step: "cursor_ok s \<Longrightarrow> cursor_ok (console_step s op)"
  by (cases op)
    (simp_all add: cursor_ok_clear cursor_ok_putchar cursor_ok_print vga_println_def
      cursor_ok_set_color cursor_ok_scroll cursor_ok_cursor_enable cursor_ok_set_cursor)

lemma cursor_ok_run: "cursor_ok s \<Longrightarrow> cursor_ok (console_run s ops)"
  unfolding console_run_def
  by (induction ops arbitrary: s) (simp_all add: cursor_ok_step)

lemma putchar_overflow_scrolls:
  assumes "VGA_HEIGHT \<le> cursor_y (vga_putchar_switch s c)"
  shows "vga_putchar s c =
      vga_update_cursor ((vga_scroll (vga_putchar_switch s c))\<lparr>cursor_y := VGA_HEIGHT - 1\<rparr>)"
  using assms by (simp add: vga_putchar_def Let_def)

text \<open>
  Claim C2. After any finite sequence of public console operations, run from the
  initialised console, the cursor column is in 0..79 and the row in 0..24. Whenever the
  \<open>switch\<close> of a \<open>vga_putchar\<close> moves the row past line 24, the call scrolls once (the
  result is the scrolled grid) and pins the row to 24; the column is in bounds as well.
\<close>

theorem cursor_always_in_bounds:
  "(let s = console_run (vga_init s0) ops in
      0 \<le> cursor_x s \<and> cursor_x s < 80 \<and> 0 \<le> cursor_y s \<and> cursor_y s < 25 \<and>
      (\<forall>c. cursor_y (vga_putchar_switch s c) > 24 \<longrightarrow>
           vga_putchar s c =
             vga_update_cursor ((vga_scroll (vga_putchar_switch s c))\<lparr>cursor_y := 24\<rparr>) \<and>
           scroll_count (vga_putchar s c) = scroll_count s + 1 \<and>
           cursor_y (vga_putchar s c) = 24 \<and>
           0 \<le> cursor_x (vga_putchar s c) \<and> cursor_x (vga_putchar s c) < 80))"
proof -
  define s where "s = console_run (vga_init s0) ops"
  have ok: "cursor_ok s"
    unfolding s_def by (rule cursor_ok_run [OF cursor_ok_init])
  have b: "0 \<le> cursor_x s \<and> cursor_x s < 80 \<and> 0 \<le> cursor_y s \<and> cursor_y s < 25"
    using ok by (simp add: cursor_ok_def VGA_WIDTH_def VGA_HEIGHT_def)
  have o: "vga_putchar s c =
             vga_update_cursor ((vga_scroll (vga_putchar_switch s c))\<lparr>cursor_y := 24\<rparr>) \<and>
           scroll_count (vga_putchar s c) = scroll_count s + 1 \<and>
           cursor_y (vga_putchar s c) = 24 \<and>
           0 \<le> cursor_x (vga_putchar s c) \<and> cursor_x (vga_putchar s c) < 80"
    if h: "cursor_y (vga_putchar_switch s c) > 24" for c
  proof -
    have e: "vga_putchar s c =
        vga_update_cursor ((vga_scroll (vga_putchar_switch s c))\<lparr>cursor_y := 24\<rparr>)"
      using putchar_overflow_scrolls [of s c] h by (simp add: VGA_HEIGHT_def)
    have n: "scroll_count (vga_putchar_switch s c) = scroll_count s"
      by (simp add: vga_putchar_switch_def Let_def)
    have x: "0 \<le> cursor_x (vga_putchar_switch s c) \<and> cursor_x (vga_putchar_switch s c) < 80"
      using switch_cursor_bounds [OF ok, of c] by (simp add: VGA_WIDTH_def)
    show ?thesis using e n x by simp
  qed
  from b o show ?thesis unfolding s_def [symmetric] Let_def by blast
qed

lemma length_vga_store [simp]: "length (vga_store buf i v) = length buf"
  by (simp add: vga_store_def)

lemma vga_store_nth:
  "j < length buf \<Longrightarrow> vga_store buf i v ! j = (if 0 \<le> i \<and> nat i = j then v else buf ! j)"
  by (auto simp: vga_store_def)

lemma length_vga_fill [simp]: "length (vga_fill buf i hi b) = length buf"
  by (induction buf i hi b rule: vga_fill.induct) (subst vga_fill.simps, simp)

lemma length_vga_move_up [simp]: "length (vga_move_up buf i) = length buf"
  by (induction buf i rule: vga_move_up.induct) (subst vga_move_up.simps, simp)

lemma vga_fill_nth:
  "j < length buf \<Longrightarrow> 0 \<le> i \<Longrightarrow>
   vga_fill buf i hi b ! j = (if i \<le> int j \<and> int j < hi then b else buf ! j)"
proof (induction buf i hi b rule: vga_fill.induct)
  case (1 buf i hi blank)
  show ?case
  proof (cases "i < hi")
    case True
    have "vga_fill buf i hi blank ! j = vga_fill (vga_store buf i blank) (i + 1) hi blank ! j"
      by (subst vga_fill.simps) (simp add: True)
    also have "\<dots> = (if i + 1 \<le> int j \<and> int j < hi then blank else vga_store buf i blank ! j)"
      using "1.IH" [OF True] "1.prems" by simp
    also have "\<dots> = (if i \<le> int j \<and> int j < hi then blank else buf ! j)"
      using "1.prems" True by (auto simp: vga_store_nth)
    finally show ?thesis .
  next
    case False
    then show ?thesis by (subst vga_fill.simps) auto
  qed
qed

lemma vga_move_up_nth:
  "length buf = 2000 \<Longrightarrow> j < 2000 \<Longrightarrow> 0 \<le> i \<Longrightarrow>
   vga_move_up buf i ! j = (if i \<le> int j \<and> j < 1920 then buf ! (j + 80) else buf ! j)"
proof (induction buf i rule: vga_move_up.induct)
  case (1 buf i)
  show ?case
  proof (cases "i < (VGA_HEIGHT - 1) * VGA_WIDTH")
    case True
    let ?b = "vga_store buf i (buf ! nat (i + VGA_WIDTH))"
    have "vga_move_up buf i ! j = vga_move_up ?b (i + 1) ! j"
      by (subst vga_move_up.simps) (simp add: True)
    also have "\<dots> = (if i + 1 \<le> int j \<and> j < 1920 then ?b ! (j + 80) else ?b ! j)"
      using "1.IH" [OF True] "1.prems" by simp
    also have "\<dots> = (if i \<le> int j \<and> j < 1920 then buf ! (j + 80) else buf ! j)"
      using "1.prems" True
      by (auto simp: vga_store_nth VGA_WIDTH_def VGA_HEIGHT_def nat_add_distrib)
    finally show ?thesis .
  next
    case False
    then show ?thesis
      by (subst vga_move_up.simps) (auto simp: VGA_WIDTH_def VGA_HEIGHT_def)
  qed
qed

lemma scroll_buffer:
  assumes "length (vga_buffer s) = 2000"
  shows "vga_buffer (vga_scroll s) = drop 80 (vga_buffer s) @ replicate 80 (vga_blank s)"
proof (rule nth_equalityI)
  show "length (vga_buffer (vga_scroll s)) = length (drop 80 (vga_buffer s) @ replicate 80 (vga_blank s))"
    using assms by (simp add: vga_scroll_def Let_def)
next
  fix j assume "j < length (vga_buffer (vga_scroll s))"
  then have j: "j < 2000" using assms by (simp add: vga_scroll_def Let_def)
  have "vga_buffer (vga_scroll s) ! j = (if j < 1920 then vga_buffer s ! (j + 80) else vga_blank s)"
    using j assms
    by (simp add: vga_scroll_def Let_def vga_fill_nth vga_move_up_nth VGA_WIDTH_def VGA_HEIGHT_def
        vga_blank_def)
  also have "\<dots> = (drop 80 (vga_buffer s) @ replicate 80 (vga_blank s)) ! j"
    using j assms by (simp add: nth_append add.commute)
  finally show "vga_buffer (vga_scroll s) ! j = (drop 80 (vga_buffer s) @ replicate 80 (vga_blank s)) ! j" .
qed

lemma clear_buffer:
  assumes "length (vga_buffer s) = 2000"
  shows "vga_buffer (vga_clear s) = replicate 2000 (vga_blank s)"
proof (rule nth_equalityI)
  show "length (vga_buffer (vga_clear s)) = length (replicate 2000 (vga_blank s))"
    using assms by (simp add: vga_clear_def Let_def)
next
  fix j assume "j < length (vga_buffer (vga_clear s))"
  then have j: "j < 2000" using assms by (simp add: vga_clear_def Let_def)
  show "vga_buffer (vga_clear s) ! j = replicate 2000 (vga_blank s) ! j"
    using j assms
    by (simp add: vga_clear_def Let_def vga_fill_nth VGA_WIDTH_def VGA_HEIGHT_def vga_blank_def)
qed

lemma printable_not_special:
  "vga_printable c \<Longrightarrow> c \<noteq> CHR 0x0A \<and> c \<noteq> CHR 0x0D \<and> c \<noteq> CHR 0x09 \<and> c \<noteq> CHR 0x08"
  by (auto simp: vga_printable_def schar_def)

lemma switch_printable:
  assumes "vga_printable c"
  shows "vga_putchar_switch s c =
    (let s1 = s\<lparr>vga_buffer := vga_store (vga_buffer s) (cursor_y s * VGA_WIDTH + cursor_x s)
                                (vga_make_entry c (current_attr s)),
                 cursor_x := cursor_x s + 1\<rparr>
     in if cursor_x s1 \<ge> VGA_WIDTH then s1\<lparr>cursor_x := 0, cursor_y := cursor_y s1 + 1\<rparr> else s1)"
  using printable_not_special [OF assms] assms
  by (simp add: vga_putchar_switch_def vga_printable_def Let_def)

lemma putchar_offset_in_range:
  assumes "cursor_ok s" and "length (vga_buffer s) = 2000"
  shows "0 \<le> cursor_y s * VGA_WIDTH + cursor_x s \<and>
         cursor_y s * VGA_WIDTH + cursor_x s < int (length (vga_buffer s))"
  using assms by (auto simp: cursor_ok_def VGA_WIDTH_def VGA_HEIGHT_def)

lemma putchar_printable_inrow:
  assumes ok: "cursor_ok s" and len: "length (vga_buffer s) = 2000"
    and p: "vga_printable c" and x: "cursor_x s < 79"
  shows "vga_buffer (vga_putchar s c) =
           (vga_buffer s)[nat (cursor_y s * 80 + cursor_x s) := vga_make_entry c (current_attr s)]"
    and "cursor_x (vga_putchar s c) = cursor_x s + 1"
    and "cursor_y (vga_putchar s c) = cursor_y s"
    and "current_attr (vga_putchar s c) = current_attr s"
    and "scroll_count (vga_putchar s c) = scroll_count s"
  using putchar_offset_in_range [OF ok len] ok x
  by (simp_all add: vga_putchar_def switch_printable [OF p] Let_def vga_store_def cursor_ok_def
      VGA_WIDTH_def VGA_HEIGHT_def)

lemma putchar_printable_lastcol:
  assumes len: "length (vga_buffer s) = 2000"
    and p: "vga_printable c" and x: "cursor_x s = 79" and y: "cursor_y s = 24"
  shows "vga_buffer (vga_putchar s c) =
           drop 80 ((vga_buffer s)[1999 := vga_make_entry c (current_attr s)]) @
           replicate 80 (vga_blank s)"
    and "cursor_x (vga_putchar s c) = 0"
    and "cursor_y (vga_putchar s c) = 24"
    and "current_attr (vga_putchar s c) = current_attr s"
    and "scroll_count (vga_putchar s c) = Suc (scroll_count s)"
  using len x y
  by (simp_all add: vga_putchar_def switch_printable [OF p] Let_def vga_store_def
      VGA_WIDTH_def VGA_HEIGHT_def scroll_buffer vga_blank_def)

lemma putchar_newline_lastrow:
  assumes len: "length (vga_buffer s) = 2000" and y: "cursor_y s = 24"
  shows "vga_buffer (vga_putchar s (CHR 0x0A)) = drop 80 (vga_buffer s) @ replicate 80 (vga_blank s)"
    and "cursor_x (vga_putchar s (CHR 0x0A)) = 0"
    and "cursor_y (vga_putchar s (CHR 0x0A)) = 24"
    and "current_attr (vga_putchar s (CHR 0x0A)) = current_attr s"
    and "scroll_count (vga_putchar s (CHR 0x0A)) = Suc (scroll_count s)"
  using len y
  by (simp_all add: vga_putchar_def vga_putchar_switch_def Let_def
      VGA_WIDTH_def VGA_HEIGHT_def scroll_buffer vga_blank_def)

lemma length_buffer_putchar:
  "length (vga_buffer (vga_putchar s c)) = length (vga_buffer s)"
  by (simp add: vga_putchar_def vga_putchar_switch_def Let_def vga_scroll_def)

lemma fill_inrow:
  assumes "cursor_ok s" and "length (vga_buffer s) = 2000"
    and "\<forall>c \<in> set cs. vga_printable c" and "cursor_x s + int (length cs) \<le> 79"
  shows "vga_buffer (foldl vga_putchar s cs) =
           take (nat (cursor_y s * 80 + cursor_x s)) (vga_buffer s) @
           map (\<lambda>c. vga_make_entry c (current_attr s)) cs @
           drop (nat (cursor_y s * 80 + cursor_x s) + length cs) (vga_buffer s) \<and>
         cursor_x (foldl vga_putchar s cs) = cursor_x s + int (length cs) \<and>
         cursor_y (foldl vga_putchar s cs) = cursor_y s \<and>
         current_attr (foldl vga_putchar s cs) = current_attr s \<and>
         scroll_count (foldl vga_putchar s cs) = scroll_count s"
  using assms
proof (induction cs arbitrary: s)
  case Nil
  then show ?case by simp
next
  case (Cons c cs)
  let ?s1 = "vga_putchar s c"
  let ?off = "nat (cursor_y s * 80 + cursor_x s)"
  have p: "vga_printable c" and x: "cursor_x s < 79" using Cons.prems by auto
  note f = putchar_printable_inrow [OF Cons.prems(1,2) p x]
  have ok1: "cursor_ok ?s1" by (rule cursor_ok_putchar [OF Cons.prems(1)])
  have len1: "length (vga_buffer ?s1) = 2000" using Cons.prems(2) by (simp add: length_buffer_putchar)
  have x1: "cursor_x ?s1 + int (length cs) \<le> 79" using Cons.prems(4) f(2) by simp
  have pr: "\<forall>c \<in> set cs. vga_printable c" using Cons.prems(3) by simp
  note ih = Cons.IH [OF ok1 len1 pr x1]
  have lt: "?off < 2000"
    using Cons.prems(1) by (auto simp: cursor_ok_def VGA_WIDTH_def VGA_HEIGHT_def)
  have off1: "nat (cursor_y s * 80 + (cursor_x s + 1)) = Suc ?off"
    using Cons.prems(1) by (auto simp: cursor_ok_def)
  have t: "take (Suc ?off) ((vga_buffer s)[?off := vga_make_entry c (current_attr s)]) =
           take ?off (vga_buffer s) @ [vga_make_entry c (current_attr s)]"
    using lt Cons.prems(2) by (simp add: take_Suc_conv_app_nth)
  have d: "drop (Suc ?off + length cs) ((vga_buffer s)[?off := vga_make_entry c (current_attr s)]) =
           drop (Suc ?off + length cs) (vga_buffer s)"
    by (simp add: drop_update_cancel)
  show ?case
    using ih by (simp add: f off1 t d)
qed

lemma vga_blank_putchar: "current_attr s' = current_attr s \<Longrightarrow> vga_blank s' = vga_blank s"
  by (simp add: vga_blank_def)

lemma drop_last_cell: "length xs = Suc n \<Longrightarrow> drop n xs = [xs ! n]"
proof -
  assume l: "length xs = Suc n"
  have a: "xs ! n # drop (Suc n) xs = drop n xs"
    by (rule Cons_nth_drop_Suc) (simp add: l)
  have b: "drop (Suc n) xs = []" using l by simp
  from a b show ?thesis by simp
qed

lemma fill_last_row:
  assumes ok: "cursor_ok s" and len: "length (vga_buffer s) = 2000" and y: "cursor_y s = 24"
    and pr: "\<forall>c \<in> set cs. vga_printable c" and n: "int (length cs) = 80 - cursor_x s"
  shows "vga_buffer (foldl vga_putchar s cs) =
           drop 80 (take (nat (1920 + cursor_x s)) (vga_buffer s) @
                    map (\<lambda>c. vga_make_entry c (current_attr s)) cs) @
           replicate 80 (vga_blank s) \<and>
         cursor_x (foldl vga_putchar s cs) = 0 \<and>
         cursor_y (foldl vga_putchar s cs) = 24 \<and>
         current_attr (foldl vga_putchar s cs) = current_attr s \<and>
         scroll_count (foldl vga_putchar s cs) = Suc (scroll_count s)"
proof -
  have x: "0 \<le> cursor_x s" "cursor_x s < 80" using ok by (simp_all add: cursor_ok_def VGA_WIDTH_def)
  have ne: "cs \<noteq> []" using n x by auto
  define bs where "bs = butlast cs"
  define l where "l = last cs"
  have cs: "cs = bs @ [l]" using ne by (simp add: bs_def l_def)
  have prb: "\<forall>c \<in> set bs. vga_printable c" and prl: "vga_printable l" using pr cs by auto
  have nb: "cursor_x s + int (length bs) \<le> 79" and nb': "int (length bs) = 79 - cursor_x s"
    using n cs by auto
  let ?s1 = "foldl vga_putchar s bs"
  let ?off = "nat (cursor_y s * 80 + cursor_x s)"
  note f = fill_inrow [OF ok len prb nb]
  have off: "?off = nat (1920 + cursor_x s)" using y by simp
  have offn: "?off + length bs = 1999" using nb' x y by auto
  have b1: "vga_buffer ?s1 = take ?off (vga_buffer s) @
             map (\<lambda>c. vga_make_entry c (current_attr s)) bs @ [vga_buffer s ! 1999]"
  proof -
    have "drop 1999 (vga_buffer s) = [vga_buffer s ! 1999]"
      using len by (intro drop_last_cell) simp
    then show ?thesis using f offn by simp
  qed
  have len1: "length (vga_buffer ?s1) = 2000"
    using b1 offn len by simp
  have x1: "cursor_x ?s1 = 79" and y1: "cursor_y ?s1 = 24" and a1: "current_attr ?s1 = current_attr s"
    and c1: "scroll_count ?s1 = scroll_count s"
    using f nb' y by simp_all
  note g = putchar_printable_lastcol [OF len1 prl x1 y1]
  have lt: "length (take ?off (vga_buffer s) @ map (\<lambda>c. vga_make_entry c (current_attr s)) bs) = 1999"
    using offn len by simp
  have u: "(vga_buffer ?s1)[1999 := vga_make_entry l (current_attr s)] =
        take ?off (vga_buffer s) @ map (\<lambda>c. vga_make_entry c (current_attr s)) cs"
  proof -
    have "(vga_buffer ?s1)[1999 := vga_make_entry l (current_attr s)] =
       (take ?off (vga_buffer s) @ map (\<lambda>c. vga_make_entry c (current_attr s)) bs) @
       [vga_buffer s ! 1999][0 := vga_make_entry l (current_attr s)]"
      unfolding b1 using lt by (simp only: append_assoc [symmetric] list_update_append) simp
    then show ?thesis by (simp add: cs)
  qed
  have fl: "foldl vga_putchar s cs = vga_putchar ?s1 l" by (simp add: cs)
  show ?thesis
    unfolding fl using g u a1 c1 by (simp add: off vga_blank_def)
qed

lemma clear_fields [simp]:
  "cursor_x (vga_clear s) = 0"
  "cursor_y (vga_clear s) = 0"
  "current_attr (vga_clear s) = current_attr s"
  "scroll_count (vga_clear s) = scroll_count s"
  "length (vga_buffer (vga_clear s)) = length (vga_buffer s)"
  by (simp_all add: vga_clear_def Let_def)

lemma init_fields [simp]:
  "cursor_x (vga_init s) = 0"
  "cursor_y (vga_init s) = 0"
  "current_attr (vga_init s) = vga_make_attr VGA_LIGHT_GRAY VGA_BLACK"
  "scroll_count (vga_init s) = scroll_count s"
  "length (vga_buffer (vga_init s)) = length (vga_buffer s)"
  by (simp_all add: vga_init_def)

lemma set_cursor_fields [simp]:
  "current_attr (vga_set_cursor x y s) = current_attr s"
  "scroll_count (vga_set_cursor x y s) = scroll_count s"
  "vga_buffer (vga_set_cursor x y s) = vga_buffer s"
  by (simp_all add: vga_set_cursor_def)

lemma set_cursor_in_range:
  "0 \<le> x \<Longrightarrow> x < 80 \<Longrightarrow> 0 \<le> y \<Longrightarrow> y < 25 \<Longrightarrow>
   cursor_x (vga_set_cursor x y s) = x \<and> cursor_y (vga_set_cursor x y s) = y"
  by (simp add: vga_set_cursor_def VGA_WIDTH_def VGA_HEIGHT_def)

lemma light_gray_on_black: "vga_make_attr VGA_LIGHT_GRAY VGA_BLACK = 0x07"
  by (simp add: vga_make_attr_def VGA_LIGHT_GRAY_def VGA_BLACK_def)

lemma scrolled_rows:
  assumes "length filled = 2000"
  shows "1 \<le> r \<Longrightarrow> r \<le> 24 \<Longrightarrow> vga_row (drop 80 filled @ replicate 80 b) (r - 1) = vga_row filled r"
    and "vga_row (drop 80 filled @ replicate 80 b) 24 = replicate 80 b"
proof -
  show "vga_row (drop 80 filled @ replicate 80 b) 24 = replicate 80 b"
    using assms by (simp add: vga_row_def)
  assume r: "1 \<le> r" "r \<le> 24"
  have k: "(r - 1) * 80 + 80 = r * 80" using r by (simp add: algebra_simps)
  have "(r - 1) * 80 \<le> 1840" using r by simp
  then show "vga_row (drop 80 filled @ replicate 80 b) (r - 1) = vga_row filled r"
    using assms k by (simp add: vga_row_def add.commute)
qed

text \<open>
  Claim C5, as the code has it. With the cursor on the last row, writing printable
  characters up to and including the last cell of that row scrolls exactly once, at the
  character written into the last cell: every row \<open>r\<close> from 1 to 24 of the filled grid
  becomes row \<open>r - 1\<close>, the bottom row is blank (spaces in the current attribute) and the
  cursor is at row 24, column 0. One further printable character does not scroll again:
  it is stored in column 0 of the bottom row and the cursor ends at column 1. One further
  newline scrolls a second time (two scrolls over the whole sequence) and the cursor ends
  at row 24, column 0.
\<close>

theorem full_last_row_scrolls_at_last_cell:
  "cursor_ok s \<Longrightarrow> length (vga_buffer s) = 2000 \<Longrightarrow> cursor_y s = 24 \<Longrightarrow>
   \<forall>c \<in> set cs. vga_printable c \<Longrightarrow> int (length cs) = 80 - cursor_x s \<Longrightarrow>
   (let s1 = foldl vga_putchar s cs;
        filled = take (nat (1920 + cursor_x s)) (vga_buffer s) @
                 map (\<lambda>c. vga_make_entry c (current_attr s)) cs
    in scroll_count s1 = scroll_count s + 1 \<and>
       (\<forall>r. 1 \<le> r \<and> r \<le> 24 \<longrightarrow> vga_row (vga_buffer s1) (r - 1) = vga_row filled r) \<and>
       vga_row (vga_buffer s1) 24 = replicate 80 (vga_make_entry (CHR '' '') (current_attr s)) \<and>
       cursor_x s1 = 0 \<and> cursor_y s1 = 24 \<and>
       (vga_printable t \<longrightarrow>
          scroll_count (vga_putchar s1 t) = scroll_count s + 1 \<and>
          vga_buffer (vga_putchar s1 t) = (vga_buffer s1)[1920 := vga_make_entry t (current_attr s)] \<and>
          cursor_x (vga_putchar s1 t) = 1 \<and> cursor_y (vga_putchar s1 t) = 24) \<and>
       scroll_count (vga_putchar s1 (CHR 0x0A)) = scroll_count s + 2 \<and>
       vga_buffer (vga_putchar s1 (CHR 0x0A)) =
         drop 80 (vga_buffer s1) @ replicate 80 (vga_make_entry (CHR '' '') (current_attr s)) \<and>
       cursor_x (vga_putchar s1 (CHR 0x0A)) = 0 \<and> cursor_y (vga_putchar s1 (CHR 0x0A)) = 24)"
proof -
  assume ok: "cursor_ok s" and len: "length (vga_buffer s) = 2000" and y: "cursor_y s = 24"
    and pr: "\<forall>c \<in> set cs. vga_printable c" and n: "int (length cs) = 80 - cursor_x s"
  define s1 where "s1 = foldl vga_putchar s cs"
  define filled where "filled = take (nat (1920 + cursor_x s)) (vga_buffer s) @
                 map (\<lambda>c. vga_make_entry c (current_attr s)) cs"
  note f = fill_last_row [OF ok len y pr n, folded s1_def filled_def]
  have x: "0 \<le> cursor_x s" "cursor_x s < 80" using ok by (simp_all add: cursor_ok_def VGA_WIDTH_def)
  have lf: "length filled = 2000" using len n x by (simp add: filled_def)
  have b1: "vga_buffer s1 = drop 80 filled @ replicate 80 (vga_blank s)" using f by simp
  have len1: "length (vga_buffer s1) = 2000" using b1 lf by simp
  have ok1: "cursor_ok s1" using f by (simp add: cursor_ok_def VGA_WIDTH_def VGA_HEIGHT_def)
  have a: "scroll_count s1 = scroll_count s + 1" using f by simp
  have r: "\<forall>r. 1 \<le> r \<and> r \<le> 24 \<longrightarrow> vga_row (vga_buffer s1) (r - 1) = vga_row filled r"
    unfolding b1 using scrolled_rows(1) [OF lf] by blast
  have l: "vga_row (vga_buffer s1) 24 = replicate 80 (vga_make_entry (CHR '' '') (current_attr s))"
    unfolding b1 using scrolled_rows(2) [OF lf] by (simp add: vga_blank_def)
  have p: "scroll_count (vga_putchar s1 t) = scroll_count s + 1 \<and>
          vga_buffer (vga_putchar s1 t) = (vga_buffer s1)[1920 := vga_make_entry t (current_attr s)] \<and>
          cursor_x (vga_putchar s1 t) = 1 \<and> cursor_y (vga_putchar s1 t) = 24"
    if t: "vga_printable t"
  proof -
    have "cursor_x s1 < 79" using f by simp
    from putchar_printable_inrow [OF ok1 len1 t this] f show ?thesis by simp
  qed
  have y1: "cursor_y s1 = 24" using f by simp
  have nl: "scroll_count (vga_putchar s1 (CHR 0x0A)) = scroll_count s + 2 \<and>
       vga_buffer (vga_putchar s1 (CHR 0x0A)) =
         drop 80 (vga_buffer s1) @ replicate 80 (vga_make_entry (CHR '' '') (current_attr s)) \<and>
       cursor_x (vga_putchar s1 (CHR 0x0A)) = 0 \<and> cursor_y (vga_putchar s1 (CHR 0x0A)) = 24"
    using putchar_newline_lastrow [OF len1 y1] f by (simp add: vga_blank_def)
  from a r l p nl f show ?thesis
    unfolding s1_def [symmetric] filled_def [symmetric] Let_def by simp
qed

lemma last_row_state_facts:
  "cursor_ok last_row_state" "length (vga_buffer last_row_state) = 2000"
  "cursor_x last_row_state = 0" "cursor_y last_row_state = 24"
  "current_attr last_row_state = 0x07" "scroll_count last_row_state = 0"
  using set_cursor_in_range [of 0 24 "vga_init vga_power_on"]
  by (simp_all add: last_row_state_def cursor_ok_set_cursor cursor_ok_init light_gray_on_black
      vga_power_on_def)

theorem full_last_row_scrolls_at_last_cell_witness:
  "cursor_ok last_row_state \<and> length (vga_buffer last_row_state) = 2000 \<and>
   cursor_y last_row_state = 24 \<and> list_all vga_printable (replicate 80 (CHR ''x'')) \<and>
   int (length (replicate 80 (CHR ''x''))) = 80 - cursor_x last_row_state \<and>
   vga_printable (CHR ''y'') \<and>
   scroll_count (foldl vga_putchar last_row_state (replicate 80 (CHR ''x''))) = 1 \<and>
   cursor_x (foldl vga_putchar last_row_state (replicate 80 (CHR ''x''))) = 0 \<and>
   scroll_count (vga_putchar (foldl vga_putchar last_row_state (replicate 80 (CHR ''x''))) (CHR ''y'')) = 1 \<and>
   cursor_x (vga_putchar (foldl vga_putchar last_row_state (replicate 80 (CHR ''x''))) (CHR ''y'')) = 1 \<and>
   cursor_y (vga_putchar (foldl vga_putchar last_row_state (replicate 80 (CHR ''x''))) (CHR ''y'')) = 24"
proof -
  have p: "\<forall>c \<in> set (replicate 80 (CHR ''x'')). vga_printable c"
    by (simp add: vga_printable_def schar_def)
  have q: "vga_printable (CHR ''y'')" by (simp add: vga_printable_def schar_def)
  have n: "int (length (replicate 80 (CHR ''x''))) = 80 - cursor_x last_row_state"
    by (simp add: last_row_state_facts)
  show ?thesis
    using full_last_row_scrolls_at_last_cell [OF last_row_state_facts(1,2,4) p n, of "CHR ''y''"]
      p q n
    by (simp add: Let_def last_row_state_facts list_all_iff)
qed

text \<open>
  Claim C5 as stated fails, whichever way "fill" is read. From the initialised console
  with the cursor at the start of the last row, 80 times \<open>x\<close> (all 80 cells) and then a
  newline scroll twice, not once: the row of \<open>x\<close> (the former row 24) ends in row 22, not
  23, and row 23 is blank. And 79 times \<open>x\<close> (up to the last cell, no scroll so far) and
  then a printable \<open>y\<close> scroll once and leave the cursor at column 0, not column 1.
\<close>

theorem one_more_after_last_row_counterexample:
  "scroll_count last_row_state = 0 \<and>
   scroll_count (vga_putchar (foldl vga_putchar last_row_state (replicate 80 (CHR ''x''))) (CHR 0x0A)) = 2 \<and>
   vga_row (vga_buffer (vga_putchar (foldl vga_putchar last_row_state (replicate 80 (CHR ''x'')))
                          (CHR 0x0A))) 23 =
     replicate 80 (vga_make_entry (CHR '' '') 0x07) \<and>
   vga_row (vga_buffer (vga_putchar (foldl vga_putchar last_row_state (replicate 80 (CHR ''x'')))
                          (CHR 0x0A))) 22 =
     replicate 80 (vga_make_entry (CHR ''x'') 0x07) \<and>
   vga_make_entry (CHR ''x'') 0x07 \<noteq> vga_make_entry (CHR '' '') 0x07 \<and>
   cursor_x (foldl vga_putchar last_row_state (replicate 79 (CHR ''x''))) = 79 \<and>
   scroll_count (foldl vga_putchar last_row_state (replicate 79 (CHR ''x''))) = 0 \<and>
   scroll_count (vga_putchar (foldl vga_putchar last_row_state (replicate 79 (CHR ''x''))) (CHR ''y'')) = 1 \<and>
   cursor_x (vga_putchar (foldl vga_putchar last_row_state (replicate 79 (CHR ''x''))) (CHR ''y'')) = 0"
proof -
  let ?t1 = "foldl vga_putchar last_row_state (replicate 79 (CHR ''x''))"
  have p': "\<forall>c \<in> set (replicate 79 (CHR ''x'')). vga_printable c"
    and py: "vga_printable (CHR ''y'')"
    by (simp_all add: vga_printable_def schar_def)
  have n': "cursor_x last_row_state + int (length (replicate 79 (CHR ''x''))) \<le> 79"
    by (simp add: last_row_state_facts)
  note h = fill_inrow [OF last_row_state_facts(1,2) p' n']
  have tx: "cursor_x ?t1 = 79" and ty: "cursor_y ?t1 = 24" and tc: "scroll_count ?t1 = 0"
    using h by (simp_all add: last_row_state_facts)
  have tl: "length (vga_buffer ?t1) = 2000"
    using h by (simp add: last_row_state_facts)
  note k = putchar_printable_lastcol [OF tl py tx ty]
  have u: "scroll_count (vga_putchar ?t1 (CHR ''y'')) = 1" "cursor_x (vga_putchar ?t1 (CHR ''y'')) = 0"
    using k tc by simp_all
  let ?s1 = "foldl vga_putchar last_row_state (replicate 80 (CHR ''x''))"
  have p: "\<forall>c \<in> set (replicate 80 (CHR ''x'')). vga_printable c"
    by (simp add: vga_printable_def schar_def)
  have n: "int (length (replicate 80 (CHR ''x''))) = 80 - cursor_x last_row_state"
    by (simp add: last_row_state_facts)
  note f = fill_last_row [OF last_row_state_facts(1,2,4) p n]
  have b1: "vga_buffer ?s1 =
      drop 80 (take 1920 (vga_buffer last_row_state)) @ replicate 80 (vga_make_entry (CHR ''x'') 0x07) @
      replicate 80 (vga_make_entry (CHR '' '') 0x07)"
    using f by (simp add: last_row_state_facts vga_blank_def)
  have len1: "length (vga_buffer ?s1) = 2000"
    using b1 by (simp add: last_row_state_facts)
  have y1: "cursor_y ?s1 = 24" using f by simp
  note g = putchar_newline_lastrow [OF len1 y1]
  have a1: "current_attr ?s1 = 0x07" using f by (simp add: last_row_state_facts)
  have b2: "vga_buffer (vga_putchar ?s1 (CHR 0x0A)) =
      drop 160 (take 1920 (vga_buffer last_row_state)) @ replicate 80 (vga_make_entry (CHR ''x'') 0x07) @
      replicate 80 (vga_make_entry (CHR '' '') 0x07) @ replicate 80 (vga_make_entry (CHR '' '') 0x07)"
    unfolding g(1) b1 by (simp add: last_row_state_facts vga_blank_def a1)
  have c: "scroll_count (vga_putchar ?s1 (CHR 0x0A)) = 2"
    using g(5) f by (simp add: last_row_state_facts)
  have r23: "vga_row (vga_buffer (vga_putchar ?s1 (CHR 0x0A))) 23 =
     replicate 80 (vga_make_entry (CHR '' '') 0x07)"
    unfolding b2 by (simp add: vga_row_def last_row_state_facts)
  have r22: "vga_row (vga_buffer (vga_putchar ?s1 (CHR 0x0A))) 22 =
     replicate 80 (vga_make_entry (CHR ''x'') 0x07)"
    unfolding b2 by (simp add: vga_row_def last_row_state_facts)
  have ne: "vga_make_entry (CHR ''x'') 0x07 \<noteq> vga_make_entry (CHR '' '') 0x07"
    by (simp add: vga_make_entry_def schar_def)
  from c r23 r22 ne tx tc u show ?thesis by (simp add: last_row_state_facts)
qed

lemma control_byte_switch:
  assumes "of_char c < (0x20 :: nat)" "c \<noteq> CHR 0x0A" "c \<noteq> CHR 0x0D" "c \<noteq> CHR 0x09" "c \<noteq> CHR 0x08"
  shows "vga_putchar_switch s c = s"
proof -
  have "(of_char c :: int) = int (of_char c)" by (simp add: of_char_def)
  with assms(1) have "schar c < 32" by (simp add: schar_def)
  then show ?thesis using assms(2-) by (simp add: vga_putchar_switch_def schar_def)
qed

text \<open>The grid keeps its 2000 cells, and every store of a reachable state is inside it.\<close>

lemma length_buffer_scroll: "length (vga_buffer (vga_scroll s)) = length (vga_buffer s)"
  by (simp add: vga_scroll_def Let_def)

lemma length_buffer_print: "length (vga_buffer (vga_print s str)) = length (vga_buffer s)"
  by (induction str arbitrary: s) (simp_all add: length_buffer_putchar)

lemma length_buffer_step: "length (vga_buffer (console_step s op)) = length (vga_buffer s)"
  by (cases op)
    (simp_all add: length_buffer_putchar length_buffer_print length_buffer_scroll vga_println_def
      vga_set_color_def)

lemma length_buffer_run: "length (vga_buffer (console_run s ops)) = length (vga_buffer s)"
  unfolding console_run_def
  by (induction ops arbitrary: s) (simp_all add: length_buffer_step)

lemma reachable_store_in_range:
  assumes "length (vga_buffer s0) = 2000"
  shows "0 \<le> cursor_y (console_run (vga_init s0) ops) * VGA_WIDTH + cursor_x (console_run (vga_init s0) ops) \<and>
         cursor_y (console_run (vga_init s0) ops) * VGA_WIDTH + cursor_x (console_run (vga_init s0) ops)
           < int (length (vga_buffer (console_run (vga_init s0) ops)))"
  by (rule putchar_offset_in_range [OF cursor_ok_run [OF cursor_ok_init]])
    (simp add: length_buffer_run assms)

text \<open>
  Claim C10. In every state reached from the initialised console, \<open>vga_putchar\<close> of a byte
  below 0x20 other than newline, carriage return, tab and backspace leaves the grid, the
  cursor column and row and the attribute unchanged: the call is \<open>vga_update_cursor\<close>
  alone, which appends the four port writes of the unchanged cursor position.
\<close>

theorem control_byte_only_syncs_cursor:
  "of_char c < (0x20 :: nat) \<Longrightarrow>
   c \<noteq> CHR 0x0A \<Longrightarrow> c \<noteq> CHR 0x0D \<Longrightarrow> c \<noteq> CHR 0x09 \<Longrightarrow> c \<noteq> CHR 0x08 \<Longrightarrow>
   (let s = console_run (vga_init s0) ops;
        pos = (word_of_int (cursor_y s * 80 + cursor_x s) :: 16 word)
    in vga_putchar s c = vga_update_cursor s \<and>
       vga_buffer (vga_putchar s c) = vga_buffer s \<and>
       cursor_x (vga_putchar s c) = cursor_x s \<and>
       cursor_y (vga_putchar s c) = cursor_y s \<and>
       current_attr (vga_putchar s c) = current_attr s \<and>
       scroll_count (vga_putchar s c) = scroll_count s \<and>
       port_log (vga_putchar s c) =
         port_log s @ [(0x3D4, 0x0F), (0x3D5, ucast (pos AND 0xFF)),
                       (0x3D4, 0x0E), (0x3D5, ucast (drop_bit 8 pos AND 0xFF))])"
proof -
  assume c: "of_char c < (0x20 :: nat)" "c \<noteq> CHR 0x0A" "c \<noteq> CHR 0x0D" "c \<noteq> CHR 0x09" "c \<noteq> CHR 0x08"
  define s where "s = console_run (vga_init s0) ops"
  have ok: "cursor_ok s"
    unfolding s_def by (rule cursor_ok_run [OF cursor_ok_init])
  have e: "vga_putchar s c = vga_update_cursor s"
    using ok by (simp add: vga_putchar_def control_byte_switch [OF c] cursor_ok_def Let_def)
  have l: "port_log (vga_update_cursor s) =
         port_log s @ [(0x3D4, 0x0F),
                       (0x3D5, ucast ((word_of_int (cursor_y s * 80 + cursor_x s) :: 16 word) AND 0xFF)),
                       (0x3D4, 0x0E),
                       (0x3D5, ucast (drop_bit 8 (word_of_int (cursor_y s * 80 + cursor_x s) :: 16 word) AND 0xFF))]"
    by (simp add: vga_update_cursor_def outb_def Let_def VGA_WIDTH_def)
  show ?thesis
    unfolding s_def [symmetric] Let_def e using l by simp
qed

theorem control_byte_only_syncs_cursor_witness:
  "of_char (CHR 0x07) < (0x20 :: nat) \<and> CHR 0x07 \<noteq> CHR 0x0A \<and> CHR 0x07 \<noteq> CHR 0x0D \<and>
   CHR 0x07 \<noteq> CHR 0x09 \<and> CHR 0x07 \<noteq> CHR 0x08 \<and>
   cursor_x (vga_putchar (console_run (vga_init vga_power_on) [Op_set_cursor 5 3]) (CHR 0x07)) = 5 \<and>
   cursor_y (vga_putchar (console_run (vga_init vga_power_on) [Op_set_cursor 5 3]) (CHR 0x07)) = 3 \<and>
   vga_buffer (vga_putchar (console_run (vga_init vga_power_on) [Op_set_cursor 5 3]) (CHR 0x07)) =
     vga_buffer (console_run (vga_init vga_power_on) [Op_set_cursor 5 3])"
  using control_byte_only_syncs_cursor [of "CHR 0x07" vga_power_on "[Op_set_cursor 5 3]"]
    set_cursor_in_range [of 5 3 "vga_init vga_power_on"]
  by (simp add: console_run_def Let_def)

theorem cursor_always_in_bounds_witness:
  "cursor_y (vga_putchar_switch (console_run (vga_init vga_power_on) [Op_set_cursor 7 24]) (CHR 0x0A)) > 24 \<and>
   cursor_y (vga_putchar (console_run (vga_init vga_power_on) [Op_set_cursor 7 24]) (CHR 0x0A)) = 24 \<and>
   cursor_x (vga_putchar (console_run (vga_init vga_power_on) [Op_set_cursor 7 24]) (CHR 0x0A)) = 0 \<and>
   scroll_count (vga_putchar (console_run (vga_init vga_power_on) [Op_set_cursor 7 24]) (CHR 0x0A)) = 1"
proof -
  have a: "cursor_y (vga_putchar_switch (console_run (vga_init vga_power_on) [Op_set_cursor 7 24]) (CHR 0x0A)) > 24"
    and x: "cursor_x (vga_putchar_switch (console_run (vga_init vga_power_on) [Op_set_cursor 7 24]) (CHR 0x0A)) = 0"
    using set_cursor_in_range [of 7 24 "vga_init vga_power_on"]
    by (simp_all add: console_run_def vga_putchar_switch_def)
  have n: "scroll_count (console_run (vga_init vga_power_on) [Op_set_cursor 7 24]) = 0"
    by (simp add: console_run_def vga_power_on_def)
  from cursor_always_in_bounds [of vga_power_on "[Op_set_cursor 7 24]"]
  have t: "cursor_y (vga_putchar_switch (console_run (vga_init vga_power_on) [Op_set_cursor 7 24]) (CHR 0x0A)) > 24 \<longrightarrow>
      scroll_count (vga_putchar (console_run (vga_init vga_power_on) [Op_set_cursor 7 24]) (CHR 0x0A)) =
        scroll_count (console_run (vga_init vga_power_on) [Op_set_cursor 7 24]) + 1 \<and>
      cursor_y (vga_putchar (console_run (vga_init vga_power_on) [Op_set_cursor 7 24]) (CHR 0x0A)) = 24"
   and e: "cursor_y (vga_putchar_switch (console_run (vga_init vga_power_on) [Op_set_cursor 7 24]) (CHR 0x0A)) > 24 \<longrightarrow>
      vga_putchar (console_run (vga_init vga_power_on) [Op_set_cursor 7 24]) (CHR 0x0A) =
        vga_update_cursor ((vga_scroll (vga_putchar_switch
          (console_run (vga_init vga_power_on) [Op_set_cursor 7 24]) (CHR 0x0A)))\<lparr>cursor_y := 24\<rparr>)"
    unfolding Let_def by blast+
  have cx: "cursor_x (vga_putchar (console_run (vga_init vga_power_on) [Op_set_cursor 7 24]) (CHR 0x0A)) = 0"
    using e a x by simp
  from t a n cx show ?thesis by simp
qed

section \<open>Strings and memory (lib/string/string.c, lib/memory/memory.c)\<close>

fun strlen :: "string \<Rightarrow> nat" where
  "strlen [] = 0"
| "strlen (c # str) = (if c = NUL then 0 else Suc (strlen str))"

text \<open>\<open>strcmp\<close>: the difference of the first two bytes that differ, as \<open>unsigned char\<close>.\<close>

fun strcmp :: "string \<Rightarrow> string \<Rightarrow> int" where
  "strcmp [] [] = 0"
| "strcmp [] (b # s2) = 0 - of_char b"
| "strcmp (a # s1) [] = of_char a - 0"
| "strcmp (a # s1) (b # s2) =
    (if a \<noteq> NUL \<and> a = b then strcmp s1 s2 else of_char a - of_char b)"

definition isspace :: "char \<Rightarrow> bool" where
  "isspace c = (c = CHR '' '' \<or> c = CHR 0x09 \<or> c = CHR 0x0A \<or> c = CHR 0x0D \<or>
                c = CHR 0x0C \<or> c = CHR 0x0B)"

text \<open>\<open>memcpy\<close>: the first \<open>n\<close> bytes of the destination become those of the source.\<close>

definition memcpy :: "char list \<Rightarrow> char list \<Rightarrow> nat \<Rightarrow> char list" where
  "memcpy dest src n = take n src @ drop n dest"

text \<open>The C string that starts at index \<open>i\<close> of a byte array.\<close>

definition c_string_at :: "char list \<Rightarrow> nat \<Rightarrow> string" where
  "c_string_at buf i = takeWhile (\<lambda>c. c \<noteq> NUL) (drop i buf)"

section \<open>Command parser (shell/parser/parser.c)\<close>

definition SHELL_MAX_CMD_LEN :: nat where "SHELL_MAX_CMD_LEN = 256"
definition SHELL_MAX_ARGS :: nat where "SHELL_MAX_ARGS = 16"

text \<open>
  \<open>parsed_cmd_t\<close>: \<open>argv\<close> holds 16 pointers into \<open>buffer\<close> (an index) or NULL (\<open>None\<close>);
  \<open>buffer\<close> holds 256 bytes.
\<close>

record parsed_cmd =
  argc :: int
  argv :: "nat option list"
  buffer :: "char list"

text \<open>
  A read \<open>*ptr\<close> in \<open>buffer\<close>. Byte 255 of the buffer is NUL while \<open>parser_parse\<close> runs
  (lemmas \<open>parse_line_terminated\<close>, \<open>trim_loop_keeps_NUL\<close>, \<open>parse_args_keeps_NUL\<close>) and no
  loop moves past a NUL (lemmas \<open>skip_space_stays\<close>, \<open>skip_word_stays\<close>), so the reads stay
  inside the 256 bytes; past them the model reads NUL.
\<close>

definition peek :: "char list \<Rightarrow> nat \<Rightarrow> char" where
  "peek buf p = (if p < length buf then buf ! p else NUL)"

text \<open>\<open>while (end >= str && isspace( *end)) { *end = '\0'; end--; }\<close>, \<open>end\<close> as an index.\<close>

function trim_loop :: "char list \<Rightarrow> int \<Rightarrow> char list" where
  "trim_loop str e =
    (if e \<ge> 0 \<and> isspace (peek str (nat e)) then trim_loop (str[nat e := NUL]) (e - 1) else str)"
  by pat_completeness auto
termination
  by (relation "measure (\<lambda>(str, e). nat (e + 1))") auto

declare trim_loop.simps [simp del]

definition parser_trim_trailing :: "char list \<Rightarrow> char list" where
  "parser_trim_trailing str =
    (if peek str 0 = NUL then str else trim_loop str (int (strlen str) - 1))"

text \<open>\<open>while ( *ptr && isspace( *ptr)) ptr++\<close> and \<open>while ( *ptr && !isspace( *ptr)) ptr++\<close>.\<close>

function skip_space :: "char list \<Rightarrow> nat \<Rightarrow> nat" where
  "skip_space buf p =
    (if peek buf p \<noteq> NUL \<and> isspace (peek buf p) then skip_space buf (Suc p) else p)"
  by pat_completeness auto
termination
  by (relation "measure (\<lambda>(buf, p). length buf - p)") (auto simp: peek_def NUL_def split: if_splits)

declare skip_space.simps [simp del]

function skip_word :: "char list \<Rightarrow> nat \<Rightarrow> nat" where
  "skip_word buf p =
    (if peek buf p \<noteq> NUL \<and> \<not> isspace (peek buf p) then skip_word buf (Suc p) else p)"
  by pat_completeness auto
termination
  by (relation "measure (\<lambda>(buf, p). length buf - p)") (auto simp: peek_def NUL_def split: if_splits)

declare skip_word.simps [simp del]

text \<open>The parse loop never moves backwards, which is what its termination needs.\<close>

lemma skip_space_ge: "p \<le> skip_space buf p"
proof (induction buf p rule: skip_space.induct)
  case (1 buf p)
  show ?case
  proof (cases "peek buf p \<noteq> NUL \<and> isspace (peek buf p)")
    case True
    then have "skip_space buf p = skip_space buf (Suc p)" by (subst skip_space.simps) simp
    with "1.IH" [OF True] show ?thesis by simp
  next
    case False
    then show ?thesis by (subst skip_space.simps) auto
  qed
qed

lemma skip_word_ge: "p \<le> skip_word buf p"
proof (induction buf p rule: skip_word.induct)
  case (1 buf p)
  show ?case
  proof (cases "peek buf p \<noteq> NUL \<and> \<not> isspace (peek buf p)")
    case True
    then have "skip_word buf p = skip_word buf (Suc p)" by (subst skip_word.simps) simp
    with "1.IH" [OF True] show ?thesis by simp
  next
    case False
    then show ?thesis by (subst skip_word.simps) auto
  qed
qed

lemma skip_space_stops:
  "peek buf (skip_space buf p) = NUL \<or> \<not> isspace (peek buf (skip_space buf p))"
proof (induction buf p rule: skip_space.induct)
  case (1 buf p)
  show ?case
  proof (cases "peek buf p \<noteq> NUL \<and> isspace (peek buf p)")
    case True
    then have "skip_space buf p = skip_space buf (Suc p)" by (subst skip_space.simps) simp
    with "1.IH" [OF True] show ?thesis by simp
  next
    case False
    then have "skip_space buf p = p" by (subst skip_space.simps) auto
    with False show ?thesis by auto
  qed
qed

lemma skip_word_gt:
  assumes "peek buf p \<noteq> NUL" and "\<not> isspace (peek buf p)"
  shows "p < skip_word buf p"
proof -
  have "skip_word buf p = skip_word buf (Suc p)" using assms by (subst skip_word.simps) simp
  then show ?thesis using skip_word_ge [of "Suc p" buf] by simp
qed

lemma peek_in_range: "peek buf p \<noteq> NUL \<Longrightarrow> p < length buf"
  by (simp add: peek_def split: if_splits)

function parse_args :: "parsed_cmd \<Rightarrow> nat \<Rightarrow> parsed_cmd" where
  "parse_args cmd ptr =
    (if peek (buffer cmd) ptr \<noteq> NUL \<and> argc cmd < int SHELL_MAX_ARGS then
       (let p1 = skip_space (buffer cmd) ptr in
        if peek (buffer cmd) p1 = NUL then cmd
        else
          (let cmd1 = cmd\<lparr>argv := (argv cmd)[nat (argc cmd) := Some p1], argc := argc cmd + 1\<rparr>;
               p2 = skip_word (buffer cmd) p1
           in if peek (buffer cmd) p2 \<noteq> NUL
              then parse_args (cmd1\<lparr>buffer := (buffer cmd)[p2 := NUL]\<rparr>) (Suc p2)
              else parse_args cmd1 p2))
     else cmd)"
  by pat_completeness auto
termination
proof (relation "measure (\<lambda>(cmd, ptr). length (buffer cmd) - ptr)", goal_cases)
  case 1
  show ?case by simp
next
  case (2 cmd ptr p1 cmd1 p2)
  have "ptr \<le> p1" using 2 skip_space_ge [of ptr "buffer cmd"] by simp
  moreover have "p1 \<le> p2" using 2 skip_word_ge [of p1 "buffer cmd"] by simp
  moreover have "p2 < length (buffer cmd)" using 2 by (auto intro: peek_in_range)
  ultimately show ?case using 2 by simp
next
  case (3 cmd ptr p1 cmd1 p2)
  have a: "ptr \<le> p1" using 3 skip_space_ge [of ptr "buffer cmd"] by simp
  have "\<not> isspace (peek (buffer cmd) p1)"
    using 3 skip_space_stops [of "buffer cmd" ptr] by auto
  then have b: "p1 < p2" using 3 skip_word_gt [of "buffer cmd" p1] by simp
  have c: "p1 < length (buffer cmd)" using 3 by (auto intro: peek_in_range)
  show ?case using 3 a b c by simp
qed

declare parse_args.simps [simp del]

text \<open>
  \<open>parser_parse\<close> after its NULL checks. The two \<open>memset\<close> calls overwrite every pointer
  of \<open>argv\<close> and every byte of \<open>buffer\<close>, and \<open>argc\<close> is set to 0, so nothing of the old
  structure is left.
\<close>

definition parse_line :: "string \<Rightarrow> parsed_cmd" where
  "parse_line line =
    (let zeroed = \<lparr>argc = 0,
                   argv = replicate SHELL_MAX_ARGS None,
                   buffer = replicate SHELL_MAX_CMD_LEN NUL\<rparr>;
         len0 = strlen line;
         len = (if len0 \<ge> SHELL_MAX_CMD_LEN then SHELL_MAX_CMD_LEN - 1 else len0);
         copied = (memcpy (buffer zeroed) line len)[len := NUL];
         trimmed = zeroed\<lparr>buffer := parser_trim_trailing copied\<rparr>
     in parse_args trimmed 0)"

text \<open>A pointer argument is \<open>None\<close> when it is NULL.\<close>

definition parser_parse :: "string option \<Rightarrow> parsed_cmd option \<Rightarrow> bool \<times> parsed_cmd option" where
  "parser_parse cmdline cmd =
    (case (cmdline, cmd) of
       (Some line, Some old) \<Rightarrow> (True, Some (parse_line line))
     | _ \<Rightarrow> (False, cmd))"

text \<open>What a handler sees through \<open>argv\<close>: for each pointer, NULL or the C string it points to.\<close>

definition argv_strings :: "parsed_cmd \<Rightarrow> string option list" where
  "argv_strings cmd = map (map_option (c_string_at (buffer cmd))) (argv cmd)"

subsection \<open>Properties of the parser\<close>

lemma isspace_not_NUL: "isspace c \<Longrightarrow> c \<noteq> NUL"
  by (auto simp: isspace_def NUL_def)

lemma strlen_le_length: "strlen s \<le> length s"
  by (induction s) auto

lemma strlen_no_NUL: "take (strlen s) s = takeWhile (\<lambda>c. c \<noteq> NUL) s"
  by (induction s) auto

lemma strlen_take: "n \<le> strlen s \<Longrightarrow> strlen (take n s) = n"
proof (induction s arbitrary: n)
  case Nil
  then show ?case by simp
next
  case (Cons c s)
  then show ?case by (cases n) (auto split: if_splits)
qed

lemma strlen_append_NUL: "NUL \<notin> set xs \<Longrightarrow> strlen (xs @ NUL # ys) = length xs"
  by (induction xs) auto

lemma strlen_all_nonNUL: "NUL \<notin> set s \<Longrightarrow> strlen s = length s"
  by (induction s) auto

lemma take_strlen_no_NUL: "n \<le> strlen s \<Longrightarrow> NUL \<notin> set (take n s)"
proof (induction s arbitrary: n)
  case Nil
  then show ?case by simp
next
  case (Cons c s)
  then show ?case by (cases n) (auto split: if_splits)
qed

lemma argc_parse_args:
  "0 \<le> argc cmd \<Longrightarrow> argc cmd \<le> int SHELL_MAX_ARGS \<Longrightarrow>
   0 \<le> argc (parse_args cmd p) \<and> argc (parse_args cmd p) \<le> int SHELL_MAX_ARGS"
proof (induction cmd p rule: parse_args.induct)
  case (1 cmd ptr)
  show ?case
    apply (subst (1 2) parse_args.simps)
    using 1 by (auto simp: Let_def)
qed

lemma length_trim_loop [simp]: "length (trim_loop str e) = length str"
  by (induction str e rule: trim_loop.induct) (subst trim_loop.simps, simp)

lemma length_parser_trim_trailing [simp]: "length (parser_trim_trailing str) = length str"
  by (simp add: parser_trim_trailing_def)

lemma buffer_length_parse_args [simp]: "length (buffer (parse_args cmd p)) = length (buffer cmd)"
proof (induction cmd p rule: parse_args.induct)
  case (1 cmd ptr)
  show ?case
    apply (subst parse_args.simps)
    using 1 by (auto simp: Let_def)
qed

lemma argv_length_parse_args [simp]: "length (argv (parse_args cmd p)) = length (argv cmd)"
proof (induction cmd p rule: parse_args.induct)
  case (1 cmd ptr)
  show ?case
    apply (subst parse_args.simps)
    using 1 by (auto simp: Let_def)
qed

lemma parse_line_shape:
  "0 \<le> argc (parse_line line) \<and> argc (parse_line line) \<le> 16 \<and>
   length (argv (parse_line line)) = 16 \<and> length (buffer (parse_line line)) = 256"
proof -
  let ?t = "\<lparr>argc = 0, argv = replicate SHELL_MAX_ARGS None, buffer = replicate SHELL_MAX_CMD_LEN NUL\<rparr>"
  have "0 \<le> argc (parse_args (?t\<lparr>buffer := b\<rparr>) 0) \<and> argc (parse_args (?t\<lparr>buffer := b\<rparr>) 0) \<le> int SHELL_MAX_ARGS" for b
    by (rule argc_parse_args) (simp_all add: SHELL_MAX_ARGS_def)
  then show ?thesis
    using strlen_le_length [of line]
    by (auto simp add: parse_line_def Let_def memcpy_def SHELL_MAX_ARGS_def SHELL_MAX_CMD_LEN_def)
qed

lemma parse_line_truncates:
  assumes "strlen line \<ge> 256"
  shows "parse_line line = parse_line (take 255 line)"
proof -
  have "strlen (take 255 line) = 255" using assms by (simp add: strlen_take)
  then show ?thesis using assms
    by (simp add: parse_line_def Let_def memcpy_def SHELL_MAX_CMD_LEN_def)
qed

lemma trim_loop_all_space:
  "0 \<le> e \<Longrightarrow> nat e < length str \<Longrightarrow> (\<forall>i \<le> nat e. isspace (str ! i)) \<Longrightarrow>
   peek (trim_loop str e) 0 = NUL"
proof (induction str e rule: trim_loop.induct)
  case (1 str e)
  have sp: "isspace (peek str (nat e))" using "1.prems" by (simp add: peek_def)
  have u: "trim_loop str e = trim_loop (str[nat e := NUL]) (e - 1)"
    using sp "1.prems"(1) by (subst trim_loop.simps) simp
  show ?case
  proof (cases "e = 0")
    case True
    have "trim_loop (str[nat e := NUL]) (e - 1) = str[nat e := NUL]"
      using True by (subst trim_loop.simps) simp
    then show ?thesis using u True "1.prems" by (simp add: peek_def)
  next
    case False
    have c: "e \<ge> 0 \<and> isspace (peek str (nat e))" using sp "1.prems"(1) by simp
    have a: "0 \<le> e - 1" using False "1.prems"(1) by simp
    have b: "nat (e - 1) < length (str[nat e := NUL])" using "1.prems" by simp
    have d: "\<forall>i \<le> nat (e - 1). isspace (str[nat e := NUL] ! i)"
      using "1.prems" False by (auto simp: nth_list_update)
    from "1.IH" [OF c a b d] u show ?thesis by simp
  qed
qed

lemma parse_args_empty: "peek (buffer cmd) p = NUL \<Longrightarrow> parse_args cmd p = cmd"
  by (subst parse_args.simps) simp

lemma parse_line_whitespace_only:
  assumes ws: "\<forall>c \<in> set line. isspace c"
  shows "argc (parse_line line) = 0"
proof -
  have nn: "NUL \<notin> set line" using ws isspace_not_NUL by blast
  define len where "len = (if strlen line \<ge> 256 then 255 else strlen line)"
  have sl: "strlen line = length line" using nn by (rule strlen_all_nonNUL)
  have len_le: "len \<le> 255" "len \<le> length line" by (auto simp: len_def sl)
  define copied where "copied = (memcpy (replicate 256 NUL) line len)[len := NUL]"
  have cp: "copied = take len line @ NUL # replicate (255 - len) NUL"
  proof -
    have "drop len (replicate 256 NUL) = NUL # replicate (255 - len) NUL"
      using len_le by (simp add: Suc_diff_le flip: replicate_Suc)
    then show ?thesis using len_le by (simp add: copied_def memcpy_def list_update_append)
  qed
  have lc: "length copied = 256" using len_le by (simp add: cp)
  have nt: "NUL \<notin> set (take len line)" using nn by (auto dest: in_set_takeD)
  have st: "strlen copied = len" unfolding cp using nt len_le by (simp add: strlen_append_NUL)
  have p0: "peek (parser_trim_trailing copied) 0 = NUL"
  proof (cases "len = 0")
    case True
    then show ?thesis by (simp add: parser_trim_trailing_def cp peek_def)
  next
    case False
    have a: "0 \<le> int len - 1" using False by simp
    have b: "nat (int len - 1) < length copied" using lc len_le by simp
    have d: "\<forall>i \<le> nat (int len - 1). isspace (copied ! i)"
    proof (intro allI impI)
      fix i assume "i \<le> nat (int len - 1)"
      then have i: "i < len" using False by simp
      then have "copied ! i = line ! i" using len_le by (simp add: cp nth_append)
      moreover have "line ! i \<in> set line" using i len_le by simp
      ultimately show "isspace (copied ! i)" using ws by simp
    qed
    have "peek (trim_loop copied (int len - 1)) 0 = NUL"
      by (rule trim_loop_all_space [OF a b d])
    then show ?thesis by (simp add: parser_trim_trailing_def st)
  qed
  have "parse_line line =
      parse_args \<lparr>argc = 0, argv = replicate 16 None, buffer = parser_trim_trailing copied\<rparr> 0"
    by (simp add: parse_line_def Let_def copied_def len_def SHELL_MAX_ARGS_def SHELL_MAX_CMD_LEN_def)
  also have "\<dots> = \<lparr>argc = 0, argv = replicate 16 None, buffer = parser_trim_trailing copied\<rparr>"
    by (rule parse_args_empty) (simp add: p0)
  finally show ?thesis by simp
qed

lemma parse_example: 
  "argc (parse_line ''  echo   hi  '') = 2 \<and>
   take 2 (argv_strings (parse_line ''  echo   hi  '')) = [Some ''echo'', Some ''hi'']"
  by code_simp

text \<open>The reads of the parser stay inside the buffer: byte 255 is NUL, and no loop passes a NUL.\<close>

lemma skip_space_stays: "p \<le> n \<Longrightarrow> peek buf n = NUL \<Longrightarrow> skip_space buf p \<le> n"
proof (induction buf p rule: skip_space.induct)
  case (1 buf p)
  show ?case
  proof (cases "peek buf p \<noteq> NUL \<and> isspace (peek buf p)")
    case True
    then have "p \<noteq> n" using "1.prems" by auto
    then have "Suc p \<le> n" using "1.prems" by simp
    from "1.IH" [OF True this "1.prems"(2)] True show ?thesis
      by (subst skip_space.simps) simp
  next
    case False
    then show ?thesis using "1.prems" by (subst skip_space.simps) auto
  qed
qed

lemma skip_word_stays: "p \<le> n \<Longrightarrow> peek buf n = NUL \<Longrightarrow> skip_word buf p \<le> n"
proof (induction buf p rule: skip_word.induct)
  case (1 buf p)
  show ?case
  proof (cases "peek buf p \<noteq> NUL \<and> \<not> isspace (peek buf p)")
    case True
    then have "p \<noteq> n" using "1.prems" by auto
    then have "Suc p \<le> n" using "1.prems" by simp
    from "1.IH" [OF True this "1.prems"(2)] True show ?thesis
      by (subst skip_word.simps) simp
  next
    case False
    then show ?thesis using "1.prems" by (subst skip_word.simps) auto
  qed
qed

lemma peek_update_NUL: "peek buf i = NUL \<Longrightarrow> peek (buf[j := NUL]) i = NUL"
  by (cases "i = j") (auto simp: peek_def split: if_splits)

lemma trim_loop_keeps_NUL: "peek str i = NUL \<Longrightarrow> peek (trim_loop str e) i = NUL"
proof (induction str e rule: trim_loop.induct)
  case (1 str e)
  show ?case
  proof (cases "e \<ge> 0 \<and> isspace (peek str (nat e))")
    case True
    from "1.IH" [OF True peek_update_NUL [OF "1.prems"]] True show ?thesis
      by (subst trim_loop.simps) simp
  next
    case False
    then show ?thesis using "1.prems" by (subst trim_loop.simps) auto
  qed
qed

lemma parse_args_keeps_NUL:
  "peek (buffer cmd) i = NUL \<Longrightarrow> peek (buffer (parse_args cmd p)) i = NUL"
proof (induction cmd p rule: parse_args.induct)
  case (1 cmd ptr)
  show ?case
    apply (subst parse_args.simps)
    using 1 by (auto simp: Let_def peek_update_NUL)
qed

lemma parse_line_terminated: "peek (buffer (parse_line line)) 255 = NUL"
proof -
  define len where "len = (if strlen line \<ge> 256 then 255 else strlen line)"
  have l: "len \<le> 255" "len \<le> length line"
    using strlen_le_length [of line] by (auto simp: len_def)
  have "peek ((memcpy (replicate 256 NUL) line len)[len := NUL]) 255 = NUL"
    using l by (auto simp: peek_def memcpy_def nth_list_update nth_append)
  then have "peek (parser_trim_trailing ((memcpy (replicate 256 NUL) line len)[len := NUL])) 255 = NUL"
    by (simp add: parser_trim_trailing_def trim_loop_keeps_NUL)
  then show ?thesis
    unfolding parse_line_def Let_def
    by (intro parse_args_keeps_NUL) (auto simp add: len_def SHELL_MAX_CMD_LEN_def)
qed

text \<open>
  Claim C6. Parsing the line \<open>"  echo   hi  "\<close> succeeds with argument count 2 and the
  arguments \<open>echo\<close> and \<open>hi\<close> (the other 14 pointers are NULL); for every line made of
  whitespace characters only, the empty line included, parsing succeeds with argument
  count 0.
\<close>

theorem parse_echo_hi_and_blank_lines:
  "parser_parse (Some ''  echo   hi  '') (Some old) = (True, Some (parse_line ''  echo   hi  '')) \<and>
   argc (parse_line ''  echo   hi  '') = 2 \<and>
   argv_strings (parse_line ''  echo   hi  '') = [Some ''echo'', Some ''hi''] @ replicate 14 None \<and>
   ((\<forall>c \<in> set line. isspace c) \<longrightarrow>
      parser_parse (Some line) (Some old) = (True, Some (parse_line line)) \<and>
      argc (parse_line line) = 0)"
proof -
  have a: "argc (parse_line ''  echo   hi  '') = 2"
    by code_simp
  have b: "argv_strings (parse_line ''  echo   hi  '') = [Some ''echo'', Some ''hi''] @ replicate 14 None"
    by code_simp
  have c: "parser_parse (Some l) (Some old) = (True, Some (parse_line l))" for l
    by (simp add: parser_parse_def)
  from a b c parse_line_whitespace_only show ?thesis by blast
qed

theorem parse_echo_hi_and_blank_lines_witness:
  "list_all isspace [CHR '' '', CHR 0x09, CHR '' ''] \<and>
   parser_parse (Some [CHR '' '', CHR 0x09, CHR '' ''])
       (Some \<lparr>argc = 7, argv = [], buffer = []\<rparr>) =
     (True, Some (parse_line [CHR '' '', CHR 0x09, CHR '' ''])) \<and>
   argc (parse_line [CHR '' '', CHR 0x09, CHR '' '']) = 0"
  using parse_echo_hi_and_blank_lines [of "\<lparr>argc = 7, argv = [], buffer = []\<rparr>"
      "[CHR '' '', CHR 0x09, CHR '' '']"]
  by (simp add: isspace_def)

text \<open>
  Claim C7. \<open>parser_parse\<close> returns false exactly when the line pointer or the output
  pointer is NULL. For every other pair it returns true, whatever the line holds: the
  argument count is between 0 and 16, and a line of 256 bytes or more is parsed as its
  first 255 bytes are, with no error.
\<close>

theorem parser_parse_fails_only_on_null:
  "((\<not> fst (parser_parse cmdline cmd)) = (cmdline = None \<or> cmd = None)) \<and>
   parser_parse (Some line) (Some old) = (True, Some (parse_line line)) \<and>
   0 \<le> argc (parse_line line) \<and> argc (parse_line line) \<le> 16 \<and>
   (strlen line \<ge> 256 \<longrightarrow> parse_line line = parse_line (take 255 line))"
proof -
  have a: "(\<not> fst (parser_parse cmdline cmd)) = (cmdline = None \<or> cmd = None)"
    by (cases cmdline; cases cmd) (simp_all add: parser_parse_def)
  have b: "parser_parse (Some line) (Some old) = (True, Some (parse_line line))"
    by (simp add: parser_parse_def)
  from a b parse_line_shape [of line] parse_line_truncates [of line] show ?thesis by blast
qed

theorem parser_parse_fails_only_on_null_witness:
  "strlen (replicate 300 (CHR ''a'')) \<ge> 256 \<and>
   parser_parse (Some (replicate 300 (CHR ''a''))) (Some \<lparr>argc = 7, argv = [], buffer = []\<rparr>) =
     (True, Some (parse_line (replicate 255 (CHR ''a'')))) \<and>
   argc (parse_line (replicate 255 (CHR ''a''))) = 1 \<and>
   argc (parse_line ''a b c d e f g h i j k l m n o p q r s t'') = 16 \<and>
   \<not> fst (parser_parse None (Some \<lparr>argc = 7, argv = [], buffer = []\<rparr>))"
proof -
  have s: "strlen (replicate 300 (CHR ''a'')) \<ge> 256" by code_simp
  have t: "take 255 (replicate 300 (CHR ''a'')) = replicate 255 (CHR ''a'')" by simp
  have c: "argc (parse_line (replicate 255 (CHR ''a''))) = 1" by code_simp
  have d: "argc (parse_line ''a b c d e f g h i j k l m n o p q r s t'') = 16" by code_simp
  show ?thesis
    using parser_parse_fails_only_on_null [of None "Some \<lparr>argc = 7, argv = [], buffer = []\<rparr>"
        "replicate 300 (CHR ''a'')" "\<lparr>argc = 7, argv = [], buffer = []\<rparr>"] s t c d
    by simp
qed

section \<open>Formatted output (lib/printf/printf.c)\<close>

text \<open>
  What the modelled code cannot do in HOL is a fault: a conversion of \<open>do_printf\<close> that
  is outside the model, a \<open>va_arg\<close> of the wrong type or past the last argument, a format
  that ends inside a conversion (the source then reads past the terminator), and the use
  of a NULL pointer as a string.
\<close>

datatype kernel_fault = Unsupported_conversion | Bad_va_arg | Format_overrun | Null_pointer

text \<open>A variadic argument: an \<open>int\<close> or a \<open>char\<close> pointer (\<open>None\<close> is NULL).\<close>

datatype va_arg = Va_int int | Va_str "string option"

text \<open>
  \<open>print_string\<close>, with the output function \<open>putc\<close> acting on its context: the string is
  printed up to its terminator, padded with spaces to \<open>width\<close> on the right
  (\<open>left_justify\<close>) or on the left.
\<close>

definition print_string ::
    "(char \<Rightarrow> 'c \<Rightarrow> 'c) \<Rightarrow> 'c \<Rightarrow> string option \<Rightarrow> int \<Rightarrow> bool \<Rightarrow> int \<times> 'c" where
  "print_string putc ctx str0 width left_justify =
    (let str = (case str0 of None \<Rightarrow> ''(null)'' | Some s \<Rightarrow> s);
         body = takeWhile (\<lambda>c. c \<noteq> NUL) str;
         len = int (length body)
     in if left_justify then
          (let ctx1 = fold putc body ctx;
               pad = nat (width - len)
           in (len + int pad, ((putc (CHR '' '')) ^^ pad) ctx1))
        else
          (let pad = nat (width - len);
               ctx1 = ((putc (CHR '' '')) ^^ pad) ctx
           in (int pad + len, fold putc body ctx1)))"

text \<open>The flag loop and the width loop of \<open>do_printf\<close>; both return the rest of the format.\<close>

fun parse_flags :: "string \<Rightarrow> bool \<Rightarrow> bool \<Rightarrow> bool \<times> bool \<times> string" where
  "parse_flags [] zeropad left_justify = (zeropad, left_justify, [])"
| "parse_flags (c # fmt) zeropad left_justify =
    (if c = CHR ''-'' then parse_flags fmt zeropad True
     else if c = CHR ''0'' then parse_flags fmt True left_justify
     else (zeropad, left_justify, c # fmt))"

fun parse_width :: "string \<Rightarrow> int \<Rightarrow> int \<times> string" where
  "parse_width [] width = (width, [])"
| "parse_width (c # fmt) width =
    (if schar c \<ge> schar (CHR ''0'') \<and> schar c \<le> schar (CHR ''9'')
     then parse_width fmt (width * 10 + (schar c - schar (CHR ''0'')))
     else (width, c # fmt))"

lemma parse_flags_rest: "parse_flags fmt z l = (z', l', rest) \<Longrightarrow> length rest \<le> length fmt"
  by (induction fmt z l rule: parse_flags.induct) (auto split: if_splits)

lemma parse_width_rest: "parse_width fmt w = (w', rest) \<Longrightarrow> length rest \<le> length fmt"
  by (induction fmt w rule: parse_width.induct) (auto split: if_splits)

text \<open>
  \<open>do_printf\<close> for the conversions the shell core uses: literal characters, \<open>%%\<close>, \<open>%c\<close>
  and \<open>%s\<close> with their flags and width, and the literal echo of an unknown specifier. The
  numeric conversions (\<open>d i u x X p l\<close>) are outside this model: \<open>Unsupported_conversion\<close>.
\<close>

function do_printf ::
    "(char \<Rightarrow> 'c \<Rightarrow> 'c) \<Rightarrow> 'c \<Rightarrow> string \<Rightarrow> va_arg list \<Rightarrow> int \<Rightarrow> kernel_fault + (int \<times> 'c)" where
  "do_printf putc ctx [] args count = Inr (count, ctx)"
| "do_printf putc ctx (f # fmt1) args count =
    (if f = NUL then Inr (count, ctx)
     else if f \<noteq> CHR ''%'' then do_printf putc (putc f ctx) fmt1 args (count + 1)
     else
       (case parse_flags fmt1 False False of (zeropad, left_justify, fmt2) \<Rightarrow>
        (case parse_width fmt2 0 of (width, fmt3) \<Rightarrow>
         (case fmt3 of
            [] \<Rightarrow> Inl Format_overrun
          | spec # fmt4 \<Rightarrow>
              if spec = CHR ''%'' then do_printf putc (putc (CHR ''%'') ctx) fmt4 args (count + 1)
              else if spec = CHR ''c'' then
                (case args of
                   Va_int v # args' \<Rightarrow> do_printf putc (putc (char_of v) ctx) fmt4 args' (count + 1)
                 | _ \<Rightarrow> Inl Bad_va_arg)
              else if spec = CHR ''s'' then
                (case args of
                   Va_str s # args' \<Rightarrow>
                     (case print_string putc ctx s width left_justify of
                        (n, ctx') \<Rightarrow> do_printf putc ctx' fmt4 args' (count + n))
                 | _ \<Rightarrow> Inl Bad_va_arg)
              else if spec \<in> set ''diuxXpl'' then Inl Unsupported_conversion
              else if spec = NUL then Inl Format_overrun
              else do_printf putc (putc spec (putc (CHR ''%'') ctx)) fmt4 args (count + 2)))))"
  by pat_completeness auto
termination
proof (relation "measure (\<lambda>(putc, ctx, fmt, args, count). length fmt)", goal_cases)
  case 1
  show ?case by simp
next
  case 2
  then show ?case by simp
next
  case 3
  then show ?case by (auto dest!: parse_flags_rest [OF sym] parse_width_rest [OF sym])
next
  case 4
  then show ?case by (auto dest!: parse_flags_rest [OF sym] parse_width_rest [OF sym])
next
  case 5
  then show ?case by (auto dest!: parse_flags_rest [OF sym] parse_width_rest [OF sym])
next
  case 6
  then show ?case by (auto dest!: parse_flags_rest [OF sym] parse_width_rest [OF sym])
qed

definition vga_putchar_wrapper :: "char \<Rightarrow> vga_state \<Rightarrow> vga_state" where
  "vga_putchar_wrapper c ctx = vga_putchar ctx c"

definition kprintf :: "string \<Rightarrow> va_arg list \<Rightarrow> vga_state \<Rightarrow> kernel_fault + (int \<times> vga_state)" where
  "kprintf fmt args vga = do_printf vga_putchar_wrapper vga fmt args 0"

declare do_printf.simps [simp del]

section \<open>Shell (shell/shell.c)\<close>

definition MAX_COMMANDS :: int where "MAX_COMMANDS = 32"

text \<open>
  A handler receives \<open>argc\<close> and \<open>argv\<close> and acts on the console, the only state the
  handlers of the source change. The table \<open>commands\<close> is the list of its first
  \<open>num_commands\<close> entries.
\<close>

type_synonym shell_cmd_fn = "int \<Rightarrow> string option list \<Rightarrow> vga_state \<Rightarrow> vga_state"

record shell_command_t =
  name :: string
  help_text :: string
  handler :: shell_cmd_fn

fun shell_find_command :: "shell_command_t list \<Rightarrow> string \<Rightarrow> shell_command_t option" where
  "shell_find_command [] nm = None"
| "shell_find_command (entry # entries) nm =
    (if strcmp (name entry) nm = 0 then Some entry else shell_find_command entries nm)"

definition shell_register_command ::
    "shell_command_t list \<Rightarrow> string \<Rightarrow> string \<Rightarrow> shell_cmd_fn \<Rightarrow> shell_command_t list" where
  "shell_register_command commands nm hlp fn =
    (if int (length commands) \<ge> MAX_COMMANDS then commands
     else commands @ [\<lparr>name = nm, help_text = hlp, handler = fn\<rparr>])"

text \<open>
  The local \<open>cmd\<close> of \<open>shell_execute\<close> before \<open>parser_parse\<close> fills it. Its content does not
  matter: \<open>parser_parse\<close> overwrites every field.
\<close>

definition uninitialised_cmd :: parsed_cmd where
  "uninitialised_cmd = \<lparr>argc = 0, argv = replicate SHELL_MAX_ARGS None,
                          buffer = replicate SHELL_MAX_CMD_LEN NUL\<rparr>"

definition shell_execute ::
    "shell_command_t list \<Rightarrow> string option \<Rightarrow> vga_state \<Rightarrow> kernel_fault + vga_state" where
  "shell_execute commands cmdline vga =
    (case parser_parse cmdline (Some uninitialised_cmd) of
       (True, Some cmd) \<Rightarrow>
         if argc cmd = 0 then Inr vga
         else
           (case argv_strings cmd ! 0 of
              None \<Rightarrow> Inl Null_pointer
            | Some arg0 \<Rightarrow>
                (case shell_find_command commands arg0 of
                   Some command \<Rightarrow> Inr (handler command (argc cmd) (argv_strings cmd) vga)
                 | None \<Rightarrow>
                     (case kprintf (''Unknown command: %s'' @ [CHR 0x0A]) [Va_str (Some arg0)] vga of
                        Inl fault \<Rightarrow> Inl fault
                      | Inr (n1, vga1) \<Rightarrow>
                          (case kprintf (''Type '' @ [CHR 0x27] @ ''help'' @ [CHR 0x27] @
                                         '' for available commands.'' @ [CHR 0x0A]) [] vga1 of
                             Inl fault \<Rightarrow> Inl fault
                           | Inr (n2, vga2) \<Rightarrow> Inr vga2))))
     | _ \<Rightarrow>
         (case kprintf (''Error: Failed to parse command'' @ [CHR 0x0A]) [] vga of
            Inl fault \<Rightarrow> Inl fault
          | Inr (n, vga1) \<Rightarrow> Inr vga1))"

subsection \<open>Line editor\<close>

text \<open>
  \<open>keyboard_getchar\<close> polls until \<open>keyboard_getchar_nonblock\<close> returns a key. The list holds
  what the controller answers to the successive polls; when it is used up no key ever
  arrives and the loop spins forever: the result is \<open>None\<close>.
\<close>

fun keyboard_getchar :: "kbd_state \<Rightarrow> kbd_poll list \<Rightarrow> (int \<times> kbd_state \<times> kbd_poll list) option" where
  "keyboard_getchar k [] = None"
| "keyboard_getchar k (hw # polls) =
    (case keyboard_getchar_nonblock k hw of
       (c, k') \<Rightarrow> if c = KEY_NONE then keyboard_getchar k' polls else Some (c, k', polls))"

lemma keyboard_getchar_consumes:
  "keyboard_getchar k polls = Some (c, k', rest) \<Longrightarrow> length rest < length polls"
proof (induction polls arbitrary: k)
  case Nil
  then show ?case by simp
next
  case (Cons hw polls)
  obtain c1 k1 where g: "keyboard_getchar_nonblock k hw = (c1, k1)" by (cases "keyboard_getchar_nonblock k hw")
  show ?case
  proof (cases "c1 = KEY_NONE")
    case True
    then have "keyboard_getchar k1 polls = Some (c, k', rest)" using Cons.prems g by simp
    from Cons.IH [OF this] show ?thesis by simp
  next
    case False
    then show ?thesis using Cons.prems g by auto
  qed
qed

text \<open>
  \<open>size_t\<close> is unsigned and 64 bits wide: \<open>maxlen - 1\<close> wraps for \<open>maxlen = 0\<close>. The count
  \<open>pos\<close> is returned as an \<open>int\<close>: its low 32 bits, read as two's complement.
\<close>

definition size_t_pred :: "nat \<Rightarrow> nat" where
  "size_t_pred n = (n + (2 ^ 64 - 1)) mod 2 ^ 64"

definition size_t_to_int :: "nat \<Rightarrow> int" where
  "size_t_to_int n =
    (let low = int n mod 2 ^ 32 in if low < 2 ^ 31 then low else low - 2 ^ 32)"

text \<open>
  What a call of \<open>shell_readline\<close> leaves: the value returned (\<open>None\<close> when the call never
  returns), the caller's buffer, the console and the modifier state. \<open>rl_stores\<close> is not in
  the source: it lists the stores \<open>buffer[i] = c\<close> the call made, in order, so that "never
  writes index \<open>i\<close>" can be stated. A store past the end of the list given as the buffer
  is logged and leaves the list as it is.
\<close>

record readline_result =
  rl_return :: "int option"
  rl_buffer :: "char list"
  rl_stores :: "(nat \<times> char) list"
  rl_vga :: vga_state
  rl_kbd :: kbd_state

function readline_loop ::
    "nat \<Rightarrow> nat \<Rightarrow> char list \<Rightarrow> (nat \<times> char) list \<Rightarrow> vga_state \<Rightarrow> kbd_state \<Rightarrow> kbd_poll list
      \<Rightarrow> readline_result" where
  "readline_loop maxlen pos buf stores vga k polls =
    (if pos < size_t_pred maxlen then
       (case keyboard_getchar k polls of
          None \<Rightarrow>
            \<lparr>rl_return = None, rl_buffer = buf, rl_stores = stores, rl_vga = vga, rl_kbd = k\<rparr>
        | Some (c, k', rest) \<Rightarrow>
            if c = schar (CHR 0x0A) \<or> c = KEY_ENTER then
              \<lparr>rl_return = Some (size_t_to_int pos),
               rl_buffer = buf[pos := NUL],
               rl_stores = stores @ [(pos, NUL)],
               rl_vga = vga_putchar vga (CHR 0x0A),
               rl_kbd = k'\<rparr>
            else if c = schar (CHR 0x08) \<or> c = KEY_BACKSPACE then
              (if pos > 0 then
                 readline_loop maxlen (pos - 1) buf stores
                   (vga_putchar (vga_putchar (vga_putchar vga (CHR 0x08)) (CHR '' '')) (CHR 0x08))
                   k' rest
               else readline_loop maxlen pos buf stores vga k' rest)
            else if c \<ge> schar (CHR '' '') \<and> c \<le> schar (CHR ''~'') then
              readline_loop maxlen (pos + 1) (buf[pos := char_of c]) (stores @ [(pos, char_of c)])
                (vga_putchar vga (char_of c)) k' rest
            else readline_loop maxlen pos buf stores vga k' rest)
     else
       \<lparr>rl_return = Some (size_t_to_int pos),
        rl_buffer = buf[pos := NUL],
        rl_stores = stores @ [(pos, NUL)],
        rl_vga = vga,
        rl_kbd = k\<rparr>)"
  by pat_completeness auto
termination
  by (relation "measure (\<lambda>(maxlen, pos, buf, stores, vga, k, polls). length polls)")
    (auto dest: keyboard_getchar_consumes)

declare readline_loop.simps [simp del]

definition shell_readline ::
    "char list \<Rightarrow> nat \<Rightarrow> vga_state \<Rightarrow> kbd_state \<Rightarrow> kbd_poll list \<Rightarrow> readline_result" where
  "shell_readline buf maxlen vga k polls = readline_loop maxlen 0 buf [] vga k polls"

subsection \<open>Properties of the shell\<close>

text \<open>The first \<open>argc\<close> pointers of \<open>argv\<close> are set, and \<open>argc\<close> is within the 16 entries.\<close>

definition argv_filled :: "parsed_cmd \<Rightarrow> bool" where
  "argv_filled cmd =
    (0 \<le> argc cmd \<and> argc cmd \<le> int SHELL_MAX_ARGS \<and> length (argv cmd) = SHELL_MAX_ARGS \<and>
     list_all (\<lambda>a. a \<noteq> None) (take (nat (argc cmd)) (argv cmd)))"

text \<open>The second message of \<open>shell_execute\<close> for an unknown command.\<close>

definition help_hint :: string where
  "help_hint = ''Type '' @ [CHR 0x27] @ ''help'' @ [CHR 0x27] @ '' for available commands.'' @ [CHR 0x0A]"

text \<open>The handler of \<open>clear\<close> (shell/commands/cmd_clear.c): it ignores its arguments and clears the console.\<close>

definition cmd_clear :: shell_cmd_fn where
  "cmd_clear n args vga = vga_clear vga"



text \<open>The modifier state with no key held.\<close>

definition no_modifiers :: kbd_state where
  "no_modifiers = \<lparr>shift_pressed = False, ctrl_pressed = False, alt_pressed = False\<rparr>"

lemma of_char_zero_iff: "(of_char c :: int) = 0 \<longleftrightarrow> c = NUL"
proof -
  have "(of_char c :: int) = of_char NUL \<longleftrightarrow> c = NUL" by (rule of_char_eq_iff)
  then show ?thesis by (simp add: NUL_def)
qed

lemma strcmp_zero_iff: "strcmp a b = 0 \<longleftrightarrow> c_string_at a 0 = c_string_at b 0"
proof (induction a b rule: strcmp.induct)
  case 1
  show ?case by (simp add: c_string_at_def)
next
  case (2 b s2)
  show ?case by (auto simp: c_string_at_def of_char_zero_iff)
next
  case (3 a s1)
  show ?case by (auto simp: c_string_at_def of_char_zero_iff)
next
  case (4 a s1 b s2)
  show ?case
  proof (cases "a \<noteq> NUL \<and> a = b")
    case True
    then show ?thesis using 4 by (simp add: c_string_at_def)
  next
    case False
    then show ?thesis by (auto simp: c_string_at_def)
  qed
qed

lemma shell_find_command_first_match:
  "shell_find_command commands nm =
     find (\<lambda>entry. c_string_at (name entry) 0 = c_string_at nm 0) commands"
  by (induction commands) (simp_all add: strcmp_zero_iff)

lemma c_string_at_no_NUL: "NUL \<notin> set (c_string_at buf i)"
  by (auto simp: c_string_at_def dest: set_takeWhileD)

lemma c_string_at_idem: "c_string_at (c_string_at buf i) 0 = c_string_at buf i"
  by (simp add: c_string_at_def)

lemma fold_putchar_wrapper: "fold vga_putchar_wrapper cs vga = foldl vga_putchar vga cs"
  by (induction cs arbitrary: vga) (simp_all add: vga_putchar_wrapper_def)

lemma do_printf_literal:
  "\<forall>c \<in> set lit. c \<noteq> NUL \<and> c \<noteq> CHR ''%'' \<Longrightarrow>
   do_printf putc ctx (lit @ rest) args count =
     do_printf putc (fold putc lit ctx) rest args (count + int (length lit))"
proof (induction lit arbitrary: ctx count)
  case Nil
  then show ?case by simp
next
  case (Cons c lit)
  then show ?case by (simp add: do_printf.simps add.assoc)
qed

lemma do_printf_string:
  "do_printf putc ctx (CHR ''%'' # CHR ''s'' # rest) (Va_str (Some s) # args) count =
     do_printf putc (fold putc (c_string_at s 0) ctx) rest args (count + int (length (c_string_at s 0)))"
  by (auto simp add: do_printf.simps print_string_def c_string_at_def NUL_def schar_def Let_def)

lemma kprintf_unknown_command:
  "kprintf (''Unknown command: %s'' @ [CHR 0x0A]) [Va_str (Some s)] vga =
     Inr (18 + int (length (c_string_at s 0)),
          foldl vga_putchar vga (''Unknown command: '' @ c_string_at s 0 @ [CHR 0x0A]))"
proof -
  have "do_printf vga_putchar_wrapper vga (''Unknown command: '' @ CHR ''%'' # CHR ''s'' # [CHR 0x0A])
          [Va_str (Some s)] 0 =
        do_printf vga_putchar_wrapper (fold vga_putchar_wrapper ''Unknown command: '' vga)
          (CHR ''%'' # CHR ''s'' # [CHR 0x0A]) [Va_str (Some s)] (0 + int (length ''Unknown command: ''))"
    by (rule do_printf_literal) (simp add: NUL_def)
  also have "\<dots> = do_printf vga_putchar_wrapper
        (fold vga_putchar_wrapper (c_string_at s 0) (fold vga_putchar_wrapper ''Unknown command: '' vga))
        [CHR 0x0A] [] (0 + int (length ''Unknown command: '') + int (length (c_string_at s 0)))"
    by (rule do_printf_string)
  also have "\<dots> = Inr (18 + int (length (c_string_at s 0)),
          foldl vga_putchar vga (''Unknown command: '' @ c_string_at s 0 @ [CHR 0x0A]))"
    by (simp add: do_printf.simps NUL_def fold_putchar_wrapper vga_putchar_wrapper_def)
  finally show ?thesis by (simp add: kprintf_def)
qed

lemma kprintf_literal:
  assumes "\<forall>c \<in> set lit. c \<noteq> NUL \<and> c \<noteq> CHR ''%''"
  shows "kprintf lit [] vga = Inr (int (length lit), foldl vga_putchar vga lit)"
proof -
  have "do_printf vga_putchar_wrapper vga (lit @ []) [] 0 =
        do_printf vga_putchar_wrapper (fold vga_putchar_wrapper lit vga) [] [] (0 + int (length lit))"
    by (rule do_printf_literal [OF assms])
  then show ?thesis by (simp add: kprintf_def do_printf.simps fold_putchar_wrapper)
qed

lemma argv_filled_step:
  assumes "argv_filled cmd" and "argc cmd < int SHELL_MAX_ARGS"
  shows "argv_filled (cmd\<lparr>argv := (argv cmd)[nat (argc cmd) := Some p], argc := argc cmd + 1\<rparr>)"
proof -
  have n: "nat (argc cmd) < length (argv cmd)" and z: "0 \<le> argc cmd"
    using assms by (auto simp add: argv_filled_def)
  have "nat (argc cmd + 1) = Suc (nat (argc cmd))" using z by simp
  then show ?thesis
    using assms n by (simp add: argv_filled_def take_Suc_conv_app_nth)
qed

lemma argv_filled_buffer [simp]: "argv_filled (cmd\<lparr>buffer := b\<rparr>) = argv_filled cmd"
  by (simp add: argv_filled_def)

lemma argv_filled_parse_args: "argv_filled cmd \<Longrightarrow> argv_filled (parse_args cmd p)"
proof (induction cmd p rule: parse_args.induct)
  case (1 cmd ptr)
  show ?case
  proof (cases "peek (buffer cmd) ptr \<noteq> NUL \<and> argc cmd < int SHELL_MAX_ARGS")
    case False
    then have "parse_args cmd ptr = cmd" by (subst parse_args.simps) auto
    then show ?thesis using "1.prems" by simp
  next
    case c: True
    define p1 where "p1 = skip_space (buffer cmd) ptr"
    show ?thesis
    proof (cases "peek (buffer cmd) p1 = NUL")
      case True
      then have "parse_args cmd ptr = cmd"
        using c by (subst parse_args.simps) (simp add: p1_def Let_def)
      then show ?thesis using "1.prems" by simp
    next
      case n: False
      define cmd1 where "cmd1 = cmd\<lparr>argv := (argv cmd)[nat (argc cmd) := Some p1], argc := argc cmd + 1\<rparr>"
      define p2 where "p2 = skip_word (buffer cmd) p1"
      have f1: "argv_filled cmd1"
        unfolding cmd1_def using "1.prems" c by (intro argv_filled_step) simp_all
      show ?thesis
      proof (cases "peek (buffer cmd) p2 \<noteq> NUL")
        case True
        have e: "parse_args cmd ptr = parse_args (cmd1\<lparr>buffer := (buffer cmd)[p2 := NUL]\<rparr>) (Suc p2)"
          using c n True by (subst parse_args.simps) (simp add: p1_def p2_def cmd1_def Let_def)
        have "argv_filled (parse_args (cmd1\<lparr>buffer := (buffer cmd)[p2 := NUL]\<rparr>) (Suc p2))"
          using "1.IH"(1) [OF c p1_def n cmd1_def p2_def True] f1 by simp
        then show ?thesis using e by simp
      next
        case False
        have e: "parse_args cmd ptr = parse_args cmd1 p2"
          using c n False by (subst parse_args.simps) (simp add: p1_def p2_def cmd1_def Let_def)
        have "argv_filled (parse_args cmd1 p2)"
          using "1.IH"(2) [OF c p1_def n cmd1_def p2_def False] f1 by simp
        then show ?thesis using e by simp
      qed
    qed
  qed
qed

lemma argv_filled_parse_line: "argv_filled (parse_line line)"
  unfolding parse_line_def Let_def
  by (rule argv_filled_parse_args) (simp add: argv_filled_def)

lemma parse_line_arg0:
  assumes "argc (parse_line line) \<noteq> 0"
  shows "\<exists>p. argv (parse_line line) ! 0 = Some p \<and>
             argv_strings (parse_line line) ! 0 = Some (c_string_at (buffer (parse_line line)) p)"
proof -
  have f: "argv_filled (parse_line line)" by (rule argv_filled_parse_line)
  then have pos: "0 < nat (argc (parse_line line))" using assms by (simp add: argv_filled_def)
  have len: "length (argv (parse_line line)) = 16" using f by (simp add: argv_filled_def SHELL_MAX_ARGS_def)
  from f have "list_all (\<lambda>a. a \<noteq> None) (take (nat (argc (parse_line line))) (argv (parse_line line)))"
    by (simp add: argv_filled_def)
  then have "take (nat (argc (parse_line line))) (argv (parse_line line)) ! 0 \<noteq> None"
    using pos len by (simp add: list_all_length)
  then have "argv (parse_line line) ! 0 \<noteq> None" using pos by simp
  then obtain p where p: "argv (parse_line line) ! 0 = Some p" by auto
  then show ?thesis using len by (auto simp: argv_strings_def)
qed

lemma unknown_command_output:
  "(case kprintf (''Unknown command: %s'' @ [CHR 0x0A]) [Va_str (Some arg0)] vga of
      Inl fault \<Rightarrow> Inl fault
    | Inr (n1, vga1) \<Rightarrow>
        (case kprintf (''Type '' @ [CHR 0x27] @ ''help'' @ [CHR 0x27] @
                       '' for available commands.'' @ [CHR 0x0A]) [] vga1 of
           Inl fault \<Rightarrow> Inl fault
         | Inr (n2, vga2) \<Rightarrow> Inr vga2)) =
   Inr (foldl vga_putchar vga (''Unknown command: '' @ c_string_at arg0 0 @ [CHR 0x0A] @ help_hint))"
proof -
  have h: "kprintf help_hint [] v = Inr (int (length help_hint), foldl vga_putchar v help_hint)" for v
    by (rule kprintf_literal) (simp add: help_hint_def NUL_def)
  have e: "foldl vga_putchar (foldl vga_putchar vga (''Unknown command: '' @ c_string_at arg0 0 @ [CHR 0x0A])) help_hint =
      foldl vga_putchar vga (''Unknown command: '' @ c_string_at arg0 0 @ [CHR 0x0A] @ help_hint)"
    by (simp only: foldl_append [symmetric] append_assoc)
  show ?thesis
    unfolding kprintf_unknown_command help_hint_def [symmetric]
    by (simp only: h sum.case prod.case e)
qed

lemma shell_execute_parsed:
  "shell_execute commands (Some line) vga =
    (if argc (parse_line line) = 0 then Inr vga
     else
       (case argv_strings (parse_line line) ! 0 of
          None \<Rightarrow> Inl Null_pointer
        | Some arg0 \<Rightarrow>
            (case find (\<lambda>entry. c_string_at (name entry) 0 = c_string_at arg0 0) commands of
               Some command \<Rightarrow>
                 Inr (handler command (argc (parse_line line)) (argv_strings (parse_line line)) vga)
             | None \<Rightarrow>
                 Inr (foldl vga_putchar vga
                        (''Unknown command: '' @ c_string_at arg0 0 @ [CHR 0x0A] @ help_hint)))))"
  unfolding shell_execute_def unknown_command_output
  by (simp add: parser_parse_def shell_find_command_first_match split: option.splits)

text \<open>
  Claim C1. \<open>shell_execute\<close> on a line parses it first. With zero arguments it does
  nothing. Otherwise argument 0 is compared with the registered names in table order,
  byte for byte: the handler of the first entry whose name equals it is called with
  \<open>argc\<close> and the argument vector; when no name matches, the characters of
  \<open>"Unknown command: "\<close>, the argument, a newline and the hint
  \<open>"Type 'help' for available commands."\<close> with its newline are written to the console,
  and the call returns. After registering \<open>echo\<close>, executing \<open>"echo hi there"\<close> calls that
  handler with count 3 and the arguments \<open>echo\<close>, \<open>hi\<close>, \<open>there\<close>.
\<close>

theorem shell_execute_dispatches:
  "parser_parse (Some line) (Some uninitialised_cmd) = (True, Some (parse_line line)) \<and>
   (argc (parse_line line) = 0 \<longrightarrow> shell_execute commands (Some line) vga = Inr vga) \<and>
   (argc (parse_line line) \<noteq> 0 \<longrightarrow>
      (\<exists>arg0. argv_strings (parse_line line) ! 0 = Some arg0 \<and>
         (case find (\<lambda>entry. c_string_at (name entry) 0 = arg0) commands of
            Some command \<Rightarrow>
              shell_execute commands (Some line) vga =
                Inr (handler command (argc (parse_line line)) (argv_strings (parse_line line)) vga)
          | None \<Rightarrow>
              shell_execute commands (Some line) vga =
                Inr (foldl vga_putchar vga (''Unknown command: '' @ arg0 @ [CHR 0x0A] @ help_hint))))) \<and>
   shell_execute (shell_register_command [] ''echo'' hlp fn) (Some ''echo hi there'') vga =
     Inr (fn 3 ([Some ''echo'', Some ''hi'', Some ''there''] @ replicate 13 None) vga)"
proof -
  have a: "parser_parse (Some line) (Some uninitialised_cmd) = (True, Some (parse_line line))"
    by (simp add: parser_parse_def)
  have b: "argc (parse_line line) = 0 \<longrightarrow> shell_execute commands (Some line) vga = Inr vga"
    by (simp add: shell_execute_parsed)
  have c: "\<exists>arg0. argv_strings (parse_line line) ! 0 = Some arg0 \<and>
         (case find (\<lambda>entry. c_string_at (name entry) 0 = arg0) commands of
            Some command \<Rightarrow>
              shell_execute commands (Some line) vga =
                Inr (handler command (argc (parse_line line)) (argv_strings (parse_line line)) vga)
          | None \<Rightarrow>
              shell_execute commands (Some line) vga =
                Inr (foldl vga_putchar vga (''Unknown command: '' @ arg0 @ [CHR 0x0A] @ help_hint)))"
    if nz: "argc (parse_line line) \<noteq> 0"
  proof -
    from parse_line_arg0 [OF nz] obtain p where
      p: "argv_strings (parse_line line) ! 0 = Some (c_string_at (buffer (parse_line line)) p)"
      by blast
    define arg0 where "arg0 = c_string_at (buffer (parse_line line)) p"
    have i: "c_string_at arg0 0 = arg0" by (simp add: arg0_def c_string_at_idem)
    have "case find (\<lambda>entry. c_string_at (name entry) 0 = arg0) commands of
            Some command \<Rightarrow>
              shell_execute commands (Some line) vga =
                Inr (handler command (argc (parse_line line)) (argv_strings (parse_line line)) vga)
          | None \<Rightarrow>
              shell_execute commands (Some line) vga =
                Inr (foldl vga_putchar vga (''Unknown command: '' @ arg0 @ [CHR 0x0A] @ help_hint))"
      using nz p by (simp add: shell_execute_parsed arg0_def [symmetric] i split: option.splits)
    with p show ?thesis unfolding arg0_def by blast
  qed
  have n: "argc (parse_line ''echo hi there'') = 3" by code_simp
  have s: "argv_strings (parse_line ''echo hi there'') =
      [Some ''echo'', Some ''hi'', Some ''there''] @ replicate 13 None" by code_simp
  have d: "shell_execute (shell_register_command [] ''echo'' hlp fn) (Some ''echo hi there'') vga =
     Inr (fn 3 ([Some ''echo'', Some ''hi'', Some ''there''] @ replicate 13 None) vga)"
    unfolding shell_execute_parsed n s
    by (simp add: shell_register_command_def MAX_COMMANDS_def c_string_at_def NUL_def)
  from a b c d show ?thesis by blast
qed

theorem shell_execute_dispatches_witness:
  "argc (parse_line ''foo'') \<noteq> 0 \<and>
   argv_strings (parse_line ''foo'') ! 0 = Some ''foo'' \<and>
   find (\<lambda>entry. c_string_at (name entry) 0 = ''foo'')
     (shell_register_command [] ''clear'' ''Clear the screen'' cmd_clear) = None \<and>
   shell_execute (shell_register_command [] ''clear'' ''Clear the screen'' cmd_clear)
       (Some ''foo'') vga_power_on =
     Inr (foldl vga_putchar vga_power_on (''Unknown command: foo'' @ [CHR 0x0A] @ help_hint)) \<and>
   argc (parse_line []) = 0 \<and>
   shell_execute (shell_register_command [] ''clear'' ''Clear the screen'' cmd_clear)
       (Some []) vga_power_on = Inr vga_power_on \<and>
   shell_execute (shell_register_command [] ''clear'' ''Clear the screen'' cmd_clear)
       (Some ''clear'') vga_power_on =
     Inr (cmd_clear 1 ([Some ''clear''] @ replicate 15 None) vga_power_on)"
proof -
  let ?cmds = "shell_register_command [] ''clear'' ''Clear the screen'' cmd_clear"
  have n: "argc (parse_line ''foo'') = 1" by code_simp
  have a: "argv_strings (parse_line ''foo'') ! 0 = Some ''foo''" by code_simp
  have f: "find (\<lambda>entry. c_string_at (name entry) 0 = ''foo'') ?cmds = None"
    by (simp add: shell_register_command_def MAX_COMMANDS_def c_string_at_def NUL_def)
  have e: "argc (parse_line []) = 0" by code_simp
  have n2: "argc (parse_line ''clear'') = 1" by code_simp
  have a2: "argv_strings (parse_line ''clear'') = [Some ''clear''] @ replicate 15 None" by code_simp
  have f2: "find (\<lambda>entry. c_string_at (name entry) 0 = ''clear'') ?cmds =
      Some \<lparr>name = ''clear'', help_text = ''Clear the screen'', handler = cmd_clear\<rparr>"
    by (simp add: shell_register_command_def MAX_COMMANDS_def c_string_at_def NUL_def)
  have u: "shell_execute ?cmds (Some ''foo'') vga_power_on =
     Inr (foldl vga_putchar vga_power_on (''Unknown command: foo'' @ [CHR 0x0A] @ help_hint))"
    using shell_execute_dispatches [of "''foo''" ?cmds vga_power_on] n a f
    by (simp only: option.case) auto
  have z: "shell_execute ?cmds (Some []) vga_power_on = Inr vga_power_on"
    using shell_execute_dispatches [of "[]" ?cmds vga_power_on] e by blast
  have c: "shell_execute ?cmds (Some ''clear'') vga_power_on =
     Inr (cmd_clear 1 ([Some ''clear''] @ replicate 15 None) vga_power_on)"
    using shell_execute_dispatches [of "''clear''" ?cmds vga_power_on] n2 a2 f2
    by (simp only: option.case) auto
  from n a f u e z c show ?thesis by simp
qed








lemma strlen_le_NUL_index: "n < length s \<Longrightarrow> s ! n = NUL \<Longrightarrow> strlen s \<le> n"
proof (induction s arbitrary: n)
  case Nil
  then show ?case by simp
next
  case (Cons c s)
  then show ?case by (cases n) auto
qed





lemma getchar_key_a: "keyboard_getchar no_modifiers ((0x01, 0x1E) # polls) = Some (97, no_modifiers, polls)"
  by (simp add: keyboard_getchar_nonblock_def keyboard_read_scancode_def keyboard_has_key_def
      special_key_def scancode_to_ascii_lower_def schar_def NUL_def no_modifiers_def KEY_NONE_def)


lemma getchar_key_enter: "keyboard_getchar no_modifiers ((0x01, 0x1C) # polls) = Some (10, no_modifiers, polls)"
  by (simp add: keyboard_getchar_nonblock_def keyboard_read_scancode_def keyboard_has_key_def
      special_key_def scancode_to_ascii_lower_def schar_def NUL_def no_modifiers_def KEY_NONE_def)

lemma char_of_97: "char_of (97 :: int) = CHR ''a''"
  by code_simp


lemma readline_key_a:
  "pos < size_t_pred maxlen \<Longrightarrow>
   readline_loop maxlen pos buf stores vga no_modifiers ((0x01, 0x1E) # polls) =
   readline_loop maxlen (pos + 1) (buf[pos := CHR ''a'']) (stores @ [(pos, CHR ''a'')])
     (vga_putchar vga (CHR ''a'')) no_modifiers polls"
  by (subst readline_loop.simps) (simp add: getchar_key_a schar_def KEY_ENTER_def KEY_BACKSPACE_def char_of_97 del: keyboard_getchar.simps)


lemma readline_key_enter:
  "pos < size_t_pred maxlen \<Longrightarrow>
   readline_loop maxlen pos buf stores vga no_modifiers ((0x01, 0x1C) # polls) =
   \<lparr>rl_return = Some (size_t_to_int pos), rl_buffer = buf[pos := NUL],
    rl_stores = stores @ [(pos, NUL)], rl_vga = vga_putchar vga (CHR 0x0A), rl_kbd = no_modifiers\<rparr>"
  by (subst readline_loop.simps) (simp add: getchar_key_enter schar_def KEY_ENTER_def del: keyboard_getchar.simps)

lemma readline_many_a:
  "pos + n \<le> size_t_pred maxlen \<Longrightarrow>
   \<exists>buf' stores' vga'.
     readline_loop maxlen pos buf stores vga no_modifiers (replicate n (0x01, 0x1E) @ rest) =
     readline_loop maxlen (pos + n) buf' stores' vga' no_modifiers rest"
proof (induction n arbitrary: pos buf stores vga)
  case 0
  then show ?case by auto
next
  case (Suc n)
  have lt: "pos < size_t_pred maxlen" using Suc.prems by simp
  have le: "(pos + 1) + n \<le> size_t_pred maxlen" using Suc.prems by simp
  from Suc.IH [OF le] obtain buf' stores' vga' where
    "readline_loop maxlen (pos + 1) (buf[pos := CHR ''a'']) (stores @ [(pos, CHR ''a'')])
       (vga_putchar vga (CHR ''a'')) no_modifiers (replicate n (0x01, 0x1E) @ rest) =
     readline_loop maxlen (pos + 1 + n) buf' stores' vga' no_modifiers rest"
    by blast
  then show ?case using readline_key_a [OF lt] by (auto simp: add.commute add.left_commute)
qed






text \<open>
  The count is a \<open>size_t\<close> and the result an \<open>int\<close>: \<open>return pos\<close> narrows. With
  \<open>maxlen = 2^31 + 2\<close> and \<open>2^31\<close> presses of the key \<open>a\<close> followed by Enter, the
  terminator is stored at index \<open>2^31\<close> and the value returned is \<open>-2^31\<close>. No call of the
  source comes near: \<open>shell_run\<close> passes \<open>sizeof(line)\<close>, 256, and drops the result.
\<close>

lemma size_t_count_beyond_int:
  "rl_return (shell_readline (replicate 2147483650 (CHR ''z'')) 2147483650 vga_power_on no_modifiers
                (replicate 2147483648 (0x01, 0x1E) @ [(0x01, 0x1C)])) = Some (- 2147483648) \<and>
   last (rl_stores (shell_readline (replicate 2147483650 (CHR ''z'')) 2147483650 vga_power_on
                      no_modifiers (replicate 2147483648 (0x01, 0x1E) @ [(0x01, 0x1C)]))) =
     (2147483648, NUL)"
proof -
  have p: "size_t_pred 2147483650 = 2147483649" by (simp add: size_t_pred_def)
  have le: "0 + 2147483648 \<le> size_t_pred 2147483650" by (simp add: p)
  from readline_many_a [OF le, of "replicate 2147483650 (CHR ''z'')" "[]" vga_power_on "[(0x01, 0x1C)]"]
  obtain buf' stores' vga' where
    e: "shell_readline (replicate 2147483650 (CHR ''z'')) 2147483650 vga_power_on no_modifiers
          (replicate 2147483648 (0x01, 0x1E) @ [(0x01, 0x1C)]) =
        readline_loop 2147483650 2147483648 buf' stores' vga' no_modifiers [(0x01, 0x1C)]"
    by (auto simp: shell_readline_def)
  have lt: "(2147483648::nat) < size_t_pred 2147483650" by (simp add: p)
  have i: "size_t_to_int 2147483648 = - 2147483648" by (simp add: size_t_to_int_def)
  show ?thesis
    unfolding e readline_key_enter [OF lt] by (simp add: i)
qed

end
